theory Spec2Isabelle
  imports Main "HOL-Library.Word"
begin

section \<open>The LRU-K replacer of BusTub: data model\<close>

text \<open>
  The model follows \<^verbatim>\<open>src/buffer/lru_k_replacer.cpp\<close> and
  \<^verbatim>\<open>src/include/buffer/lru_k_replacer.h\<close>.

  \<^item> \<^verbatim>\<open>frame_id_t\<close> is a signed 32-bit integer: a \<open>32 word\<close>, read with
    \<open>sint\<close>.
  \<^item> \<^verbatim>\<open>size_t\<close> is an unsigned 64-bit integer: a \<open>nat\<close> with the wrap-around
    \<open>mod 2 ^ 64\<close> written out at every increment, decrement and conversion.
  \<^item> A \<^verbatim>\<open>std::list<LRUKNode*>\<close> is a list of cells. Each cell carries the identity of
    the list node (what a \<^verbatim>\<open>std::list\<close> iterator designates) and the pointer it stores.
    Cell identities come from a counter and are never used twice, so an iterator whose
    cell has been erased designates no cell of any list any more.
  \<^item> A pointer \<^verbatim>\<open>LRUKNode*\<close> into \<^verbatim>\<open>node_store_\<close> is represented by the key of the
    node it points to (pointers into a \<^verbatim>\<open>std::unordered_map\<close> stay valid until the
    element is erased). Dereferencing a pointer whose node has been erased is undefined
    behaviour.
  \<^item> A failing \<^verbatim>\<open>BUSTUB_ASSERT\<close> aborts: the error \<open>AssertionFailure\<close>. Erasing
    through an iterator that designates no cell of the list, and calling \<^verbatim>\<open>back()\<close> on
    an empty list, are undefined behaviour: the error \<open>UndefinedBehaviour\<close>. A call
    sequence ends at the first error.
  \<^item> The mutex is not modelled: every operation is one atomic step.
  The members of the C++ classes end in an underscore (\<^verbatim>\<open>lru_list_\<close>, \<^verbatim>\<open>k_\<close>); the
  record fields drop it, and \<^verbatim>\<open>k_\<close> is \<open>k_val\<close>.
\<close>

text \<open>Modelled from the spec: the declaration of \<^verbatim>\<open>frame_id_t\<close> is in
  \<^verbatim>\<open>common/config.h\<close>, which is not among the sources. The spec calls a frame
  identifier an integer, and line 94 converts it to \<^verbatim>\<open>size_t\<close> by a cast; it is taken
  as the signed 32-bit integer of BusTub.\<close>

type_synonym frame_id_t = "32 word"

type_synonym list_iter = nat

datatype AccessType = Unknown | Lookup | Scan | Index

text \<open>Modelled from the spec: the macro \<^verbatim>\<open>BUSTUB_ASSERT\<close> is defined in
  \<^verbatim>\<open>common/macros.h\<close>, which is not among the sources. By the spec a violated
  contract is a fatal error that aborts the operation at once: the call yields
  \<open>AssertionFailure\<close> and no state.\<close>

datatype error = AssertionFailure | UndefinedBehaviour

record LRUKNode =
  is_evictable :: bool
  history :: "nat list"
  fid :: frame_id_t
  node_k :: nat

type_synonym node_list = "(list_iter \<times> frame_id_t) list"

record LRUKReplacer =
  lru_list :: node_list
  fifo_list :: node_list
  node_store :: "frame_id_t \<rightharpoonup> LRUKNode"
  fid_to_lru_iter :: "frame_id_t \<rightharpoonup> list_iter"
  fid_to_fifo_iter :: "frame_id_t \<rightharpoonup> list_iter"
  current_timestamp :: nat
  curr_size :: nat
  replacer_size :: nat
  k_val :: nat
  next_iter :: list_iter

subsection \<open>Arithmetic of \<^verbatim>\<open>size_t\<close>\<close>

definition size_t_inc :: "nat \<Rightarrow> nat" where
  "size_t_inc n = (n + 1) mod 2 ^ 64"

definition size_t_dec :: "nat \<Rightarrow> nat" where
  "size_t_dec n = (n + 2 ^ 64 - 1) mod 2 ^ 64"

text \<open>\<^verbatim>\<open>static_cast<size_t>(frame_id)\<close>: the value modulo \<open>2 ^ 64\<close>.\<close>

definition size_t_of_frame :: "frame_id_t \<Rightarrow> nat" where
  "size_t_of_frame f = nat (sint f mod 2 ^ 64)"

subsection \<open>Errors\<close>

definition bind_err :: "error + 'a \<Rightarrow> ('a \<Rightarrow> error + 'b) \<Rightarrow> error + 'b" where
  "bind_err r f = (case r of Inl e \<Rightarrow> Inl e | Inr x \<Rightarrow> f x)"

subsection \<open>Operations of \<^verbatim>\<open>std::list\<close>\<close>

definition valid_iter :: "list_iter \<Rightarrow> node_list \<Rightarrow> bool" where
  "valid_iter it l = (it \<in> fst ` set l)"

fun list_erase :: "list_iter \<Rightarrow> node_list \<Rightarrow> node_list" where
  "list_erase it [] = []"
| "list_erase it (c # cs) = (if fst c = it then cs else c # list_erase it cs)"

text \<open>\<^verbatim>\<open>l.erase(iter)\<close> where \<^verbatim>\<open>iter\<close> is the value found in an iterator map:
  a missing key gives a default-constructed iterator, which designates no cell.\<close>

definition erase_iter :: "list_iter option \<Rightarrow> node_list \<Rightarrow> error + node_list" where
  "erase_iter io l =
     (case io of
        None \<Rightarrow> Inl UndefinedBehaviour
      | Some it \<Rightarrow> if valid_iter it l then Inr (list_erase it l) else Inl UndefinedBehaviour)"

section \<open>Construction\<close>

definition LRUKNode_new :: "frame_id_t \<Rightarrow> nat \<Rightarrow> LRUKNode" where
  "LRUKNode_new f kv = \<lparr>is_evictable = False, history = [], fid = f, node_k = kv\<rparr>"

definition LRUKReplacer_new :: "nat \<Rightarrow> nat \<Rightarrow> LRUKReplacer" where
  "LRUKReplacer_new num_frames kv =
     \<lparr>lru_list = [], fifo_list = [], node_store = Map.empty,
      fid_to_lru_iter = Map.empty, fid_to_fifo_iter = Map.empty,
      current_timestamp = 0, curr_size = 0, replacer_size = num_frames, k_val = kv,
      next_iter = 0\<rparr>"

section \<open>Evict\<close>

text \<open>The loop over the reverse iterators: the cells are passed tail first. The result
  is the first cell whose node is evictable, with that node.\<close>

fun first_evictable ::
  "(frame_id_t \<rightharpoonup> LRUKNode) \<Rightarrow> node_list \<Rightarrow> error + (list_iter \<times> LRUKNode) option" where
  "first_evictable ns [] = Inr None"
| "first_evictable ns (c # cs) =
     (case ns (snd c) of
        None \<Rightarrow> Inl UndefinedBehaviour
      | Some n \<Rightarrow> if is_evictable n then Inr (Some (fst c, n)) else first_evictable ns cs)"

definition Evict :: "LRUKReplacer \<Rightarrow> error + (frame_id_t option \<times> LRUKReplacer)" where
  "Evict s =
     (if length (fifo_list s) > 0 then
        (case first_evictable (node_store s) (rev (fifo_list s)) of
           Inl e \<Rightarrow> Inl e
         | Inr None \<Rightarrow> Inr (None, s)
         | Inr (Some (it, n)) \<Rightarrow>
             Inr (Some (fid n),
                  s\<lparr>node_store := (node_store s)(fid n := None),
                    fifo_list := list_erase it (fifo_list s),
                    curr_size := size_t_dec (curr_size s)\<rparr>))
      else if length (lru_list s) > 0 then
        (case first_evictable (node_store s) (rev (lru_list s)) of
           Inl e \<Rightarrow> Inl e
         | Inr None \<Rightarrow> Inr (None, s)
         | Inr (Some (it, n)) \<Rightarrow>
             Inr (Some (fid n),
                  s\<lparr>node_store := (node_store s)(fid n := None),
                    lru_list := list_erase it (lru_list s),
                    curr_size := size_t_dec (curr_size s)\<rparr>))
      else Inr (None, s))"

section \<open>RecordAccess\<close>

text \<open>\<^verbatim>\<open>while (node.history.size() > k_) node.history.pop_back();\<close>\<close>

function trim_history :: "nat \<Rightarrow> nat list \<Rightarrow> nat list" where
  "trim_history kv h = (if length h > kv then trim_history kv (butlast h) else h)"
  by pat_completeness auto
termination
  by (relation "measure (\<lambda>(kv, h). length h)") auto

text \<open>The scan from \<^verbatim>\<open>lru_list_.begin()\<close> for the first cell whose oldest timestamp is
  smaller than that of the accessed node (history \<open>h\<close>), and the insertion of the new
  cell before it (at the end when the scan finds none).\<close>

fun insert_sorted ::
  "(frame_id_t \<rightharpoonup> LRUKNode) \<Rightarrow> nat list \<Rightarrow> list_iter \<times> frame_id_t \<Rightarrow> node_list
     \<Rightarrow> error + node_list" where
  "insert_sorted ns h new [] = Inr [new]"
| "insert_sorted ns h new (c # cs) =
     (case ns (snd c) of
        None \<Rightarrow> Inl UndefinedBehaviour
      | Some n \<Rightarrow>
          if history n = [] \<or> h = [] then Inl UndefinedBehaviour
          else if last (history n) < last h then Inr (new # c # cs)
          else bind_err (insert_sorted ns h new cs) (\<lambda>r. Inr (c # r)))"

text \<open>Lines 96--100: a frame seen for the first time gets a node and a cell at the
  front of \<^verbatim>\<open>fifo_list_\<close>.\<close>

definition enroll :: "frame_id_t \<Rightarrow> LRUKReplacer \<Rightarrow> LRUKReplacer" where
  "enroll frame_id s =
     (if node_store s frame_id = None then
        s\<lparr>node_store := (node_store s)(frame_id \<mapsto> LRUKNode_new frame_id (k_val s)),
          fifo_list := (next_iter s, frame_id) # fifo_list s,
          fid_to_fifo_iter := (fid_to_fifo_iter s)(frame_id \<mapsto> next_iter s),
          next_iter := next_iter s + 1\<rparr>
      else s)"

definition RecordAccess ::
  "frame_id_t \<Rightarrow> AccessType \<Rightarrow> LRUKReplacer \<Rightarrow> error + LRUKReplacer" where
  "RecordAccess frame_id access_type s =
     (if \<not> size_t_of_frame frame_id \<le> replacer_size s then Inl AssertionFailure
      else
        let s1 = enroll frame_id s in
        (case node_store s1 frame_id of
           None \<Rightarrow> Inl UndefinedBehaviour
         | Some node \<Rightarrow>
             let h = current_timestamp s1 # history node in
             if length h > k_val s1 then
               let h' = trim_history (k_val s1) h;
                   ns = (node_store s1)(frame_id \<mapsto> node\<lparr>history := h'\<rparr>)
               in bind_err (erase_iter (fid_to_lru_iter s1 frame_id) (lru_list s1)) (\<lambda>l.
                  bind_err (insert_sorted ns h' (next_iter s1, frame_id) l) (\<lambda>l'.
                  Inr (s1\<lparr>node_store := ns,
                          lru_list := l',
                          fid_to_lru_iter := (fid_to_lru_iter s1)(frame_id \<mapsto> next_iter s1),
                          next_iter := next_iter s1 + 1,
                          current_timestamp := size_t_inc (current_timestamp s1)\<rparr>)))
             else if length h = k_val s1 then
               bind_err (erase_iter (fid_to_fifo_iter s1 frame_id) (fifo_list s1)) (\<lambda>l.
                  Inr (s1\<lparr>node_store := (node_store s1)(frame_id \<mapsto> node\<lparr>history := h\<rparr>),
                          fifo_list := l,
                          lru_list := (next_iter s1, frame_id) # lru_list s1,
                          fid_to_lru_iter := (fid_to_lru_iter s1)(frame_id \<mapsto> next_iter s1),
                          next_iter := next_iter s1 + 1,
                          current_timestamp := size_t_inc (current_timestamp s1)\<rparr>))
             else
               Inr (s1\<lparr>node_store := (node_store s1)(frame_id \<mapsto> node\<lparr>history := h\<rparr>),
                       current_timestamp := size_t_inc (current_timestamp s1)\<rparr>)))"

section \<open>SetEvictable\<close>

definition SetEvictable :: "frame_id_t \<Rightarrow> bool \<Rightarrow> LRUKReplacer \<Rightarrow> LRUKReplacer" where
  "SetEvictable frame_id set_evictable s =
     (case node_store s frame_id of
        None \<Rightarrow> s
      | Some node \<Rightarrow>
          s\<lparr>curr_size :=
              (if is_evictable node \<and> \<not> set_evictable then size_t_dec (curr_size s)
               else if \<not> is_evictable node \<and> set_evictable then size_t_inc (curr_size s)
               else curr_size s),
            node_store := (node_store s)(frame_id \<mapsto> node\<lparr>is_evictable := set_evictable\<rparr>)\<rparr>)"

section \<open>Remove\<close>

text \<open>Lines 182--186 and 187--191: a frame with an entry in an iterator map has the
  designated cell erased from the list, and the entry erased from the map.\<close>

definition remove_fifo_entry :: "frame_id_t \<Rightarrow> LRUKReplacer \<Rightarrow> error + LRUKReplacer" where
  "remove_fifo_entry frame_id s =
     (case fid_to_fifo_iter s frame_id of
        None \<Rightarrow> Inr s
      | Some it \<Rightarrow>
          bind_err (erase_iter (Some it) (fifo_list s)) (\<lambda>l.
            Inr (s\<lparr>fifo_list := l, fid_to_fifo_iter := (fid_to_fifo_iter s)(frame_id := None)\<rparr>)))"

definition remove_lru_entry :: "frame_id_t \<Rightarrow> LRUKReplacer \<Rightarrow> error + LRUKReplacer" where
  "remove_lru_entry frame_id s =
     (case fid_to_lru_iter s frame_id of
        None \<Rightarrow> Inr s
      | Some it \<Rightarrow>
          bind_err (erase_iter (Some it) (lru_list s)) (\<lambda>l.
            Inr (s\<lparr>lru_list := l, fid_to_lru_iter := (fid_to_lru_iter s)(frame_id := None)\<rparr>)))"

definition Remove :: "frame_id_t \<Rightarrow> LRUKReplacer \<Rightarrow> error + LRUKReplacer" where
  "Remove frame_id s =
     (case node_store s frame_id of
        None \<Rightarrow> Inr s
      | Some node \<Rightarrow>
          if \<not> is_evictable node then Inr s
          else
            bind_err (remove_fifo_entry frame_id (s\<lparr>node_store := (node_store s)(frame_id := None)\<rparr>)) (\<lambda>s1.
            bind_err (remove_lru_entry frame_id s1) (\<lambda>s2.
            Inr (s2\<lparr>curr_size := size_t_dec (curr_size s2)\<rparr>))))"

section \<open>Size\<close>

definition Size :: "LRUKReplacer \<Rightarrow> nat" where
  "Size s = curr_size s"

section \<open>Sequences of calls\<close>

datatype call =
    Call_RecordAccess frame_id_t AccessType
  | Call_SetEvictable frame_id_t bool
  | Call_Evict
  | Call_Remove frame_id_t

fun do_call :: "call \<Rightarrow> LRUKReplacer \<Rightarrow> error + LRUKReplacer" where
  "do_call (Call_RecordAccess f a) s = RecordAccess f a s"
| "do_call (Call_SetEvictable f b) s = Inr (SetEvictable f b s)"
| "do_call Call_Evict s = bind_err (Evict s) (\<lambda>r. Inr (snd r))"
| "do_call (Call_Remove f) s = Remove f s"

fun run :: "call list \<Rightarrow> LRUKReplacer \<Rightarrow> error + LRUKReplacer" where
  "run [] s = Inr s"
| "run (c # cs) s = bind_err (do_call c s) (run cs)"


section \<open>Invariants of the replacer\<close>

text \<open>A list and its iterator map: the cells have distinct identities and distinct
  frames, every cell is registered in the map under its frame, and every iterator of the
  map is older than the counter and, when it designates a cell of the list, designates
  the cell of its own frame.\<close>

definition list_ok :: "node_list \<Rightarrow> (frame_id_t \<rightharpoonup> list_iter) \<Rightarrow> nat \<Rightarrow> bool" where
  "list_ok l m nx =
     (distinct (map fst l) \<and> distinct (map snd l) \<and>
      (\<forall>c \<in> set l. fst c < nx \<and> m (snd c) = Some (fst c)) \<and>
      (\<forall>f it. m f = Some it \<longrightarrow> it < nx \<and> (it \<in> fst ` set l \<longrightarrow> (it, f) \<in> set l)))"

definition nodes_ok :: "LRUKReplacer \<Rightarrow> bool" where
  "nodes_ok s =
     (\<forall>f n. node_store s f = Some n \<longrightarrow>
        fid n = f \<and> history n \<noteq> [] \<and> length (history n) \<le> k_val s \<and>
        fid_to_fifo_iter s f \<noteq> None)"

definition members_ok :: "LRUKReplacer \<Rightarrow> bool" where
  "members_ok s =
     ((\<forall>f. f \<in> snd ` set (fifo_list s) \<longleftrightarrow>
          (\<exists>n. node_store s f = Some n \<and> length (history n) < k_val s)) \<and>
      (\<forall>f. f \<in> snd ` set (lru_list s) \<longleftrightarrow>
          (\<exists>n. node_store s f = Some n \<and> length (history n) = k_val s)))"

definition evictable_frames :: "LRUKReplacer \<Rightarrow> frame_id_t set" where
  "evictable_frames s = {f. \<exists>n. node_store s f = Some n \<and> is_evictable n}"

definition size_ok :: "LRUKReplacer \<Rightarrow> bool" where
  "size_ok s = (curr_size s = card (evictable_frames s))"

definition replacer_inv :: "LRUKReplacer \<Rightarrow> bool" where
  "replacer_inv s =
     (nodes_ok s \<and>
      list_ok (fifo_list s) (fid_to_fifo_iter s) (next_iter s) \<and>
      list_ok (lru_list s) (fid_to_lru_iter s) (next_iter s) \<and>
      members_ok s \<and> size_ok s)"

text \<open>Timestamps: the oldest timestamp a node holds (its first access, as long as its
  history has not been trimmed); every timestamp of a history is older than the clock and
  the histories are strictly decreasing; \<^verbatim>\<open>fifo_list_\<close> is ordered by first access,
  latest at the head.\<close>

definition first_access :: "(frame_id_t \<rightharpoonup> LRUKNode) \<Rightarrow> frame_id_t \<Rightarrow> nat" where
  "first_access ns f = (case ns f of None \<Rightarrow> 0 | Some n \<Rightarrow> last (history n))"

definition times_ok :: "LRUKReplacer \<Rightarrow> bool" where
  "times_ok s =
     ((\<forall>f n. node_store s f = Some n \<longrightarrow>
         (\<forall>t \<in> set (history n). t < current_timestamp s) \<and> sorted_wrt (>) (history n)) \<and>
      sorted_wrt (\<lambda>c d. first_access (node_store s) (snd d) < first_access (node_store s) (snd c))
        (fifo_list s))"

declare trim_history.simps [simp del]

section \<open>Lists and iterators\<close>

lemma trim_history_take: "trim_history kv h = take kv h"
proof (induction kv h rule: trim_history.induct)
  case (1 kv h)
  show ?case
  proof (cases "length h > kv")
    case True
    then have "trim_history kv h = take kv (butlast h)"
      using 1 by (subst trim_history.simps) simp
    also have "\<dots> = take kv h" using True by (simp add: butlast_conv_take)
    finally show ?thesis .
  next
    case False
    then show ?thesis by (subst trim_history.simps) simp
  qed
qed

lemma set_list_erase_subset: "set (list_erase it l) \<subseteq> set l"
  by (induction l) auto

lemma list_erase_distinct_fst: "distinct (map fst l) \<Longrightarrow> distinct (map fst (list_erase it l))"
  by (induction l) (auto dest: set_mp[OF set_list_erase_subset])

lemma list_erase_distinct_snd: "distinct (map snd l) \<Longrightarrow> distinct (map snd (list_erase it l))"
  by (induction l) (auto dest: set_mp[OF set_list_erase_subset])

lemma set_list_erase: "distinct (map fst l) \<Longrightarrow> set (list_erase it l) = {c \<in> set l. fst c \<noteq> it}"
  by (induction l) (auto, force)

lemma list_erase_split:
  "it \<in> fst ` set l \<Longrightarrow> \<exists>xs f ys. l = xs @ (it, f) # ys \<and> list_erase it l = xs @ ys \<and> it \<notin> fst ` set xs"
proof (induction l)
  case Nil
  then show ?case by simp
next
  case (Cons c l)
  show ?case
  proof (cases "fst c = it")
    case True
    then have "c # l = [] @ (it, snd c) # l \<and> list_erase it (c # l) = [] @ l \<and> it \<notin> fst ` set []"
      by (cases c) simp
    then show ?thesis by blast
  next
    case False
    with Cons.prems have "it \<in> fst ` set l" by auto
    from Cons.IH[OF this] obtain xs f ys where
      "l = xs @ (it, f) # ys" "list_erase it l = xs @ ys" "it \<notin> fst ` set xs" by blast
    with False have "c # l = (c # xs) @ (it, f) # ys \<and> list_erase it (c # l) = (c # xs) @ ys \<and> it \<notin> fst ` set (c # xs)"
      by simp
    then show ?thesis by blast
  qed
qed

lemma list_ok_mono: "list_ok l m nx \<Longrightarrow> list_ok l m (Suc nx)"
  unfolding list_ok_def by (auto simp: less_Suc_eq)

lemma list_ok_push:
  assumes "list_ok l m nx" "f \<notin> snd ` set l"
  shows "list_ok ((nx, f) # l) (m(f \<mapsto> nx)) (Suc nx)"
  using assms unfolding list_ok_def
  by (auto simp: less_Suc_eq image_iff)

lemma list_ok_erase: "list_ok l m nx \<Longrightarrow> list_ok (list_erase it l) m nx"
  unfolding list_ok_def
  by (auto simp: list_erase_distinct_fst list_erase_distinct_snd set_list_erase)

lemma list_ok_erase_map:
  "list_ok l m nx \<Longrightarrow> m f = Some it \<Longrightarrow> list_ok (list_erase it l) (m(f := None)) nx"
  unfolding list_ok_def
  by (auto simp: list_erase_distinct_fst list_erase_distinct_snd set_list_erase)

lemma list_ok_snd_erase:
  "list_ok l m nx \<Longrightarrow> (it, f) \<in> set l \<Longrightarrow> snd ` set (list_erase it l) = snd ` set l - {f}"
proof -
  assume ok: "list_ok l m nx" and mem: "(it, f) \<in> set l"
  from ok have i1: "inj_on fst (set l)" and i2: "inj_on snd (set l)"
    unfolding list_ok_def by (simp_all add: distinct_map)
  from ok have se: "set (list_erase it l) = {c \<in> set l. fst c \<noteq> it}"
    unfolding list_ok_def by (simp add: set_list_erase)
  show ?thesis
  proof (intro equalityI subsetI)
    fix x assume "x \<in> snd ` set (list_erase it l)"
    then obtain c where c: "c \<in> set l" "fst c \<noteq> it" "snd c = x" unfolding se by auto
    have "x \<noteq> f"
    proof
      assume "x = f"
      with c have "snd c = snd (it, f)" by simp
      from inj_onD[OF i2 this c(1) mem] have "c = (it, f)" .
      with c(2) show False by simp
    qed
    with c show "x \<in> snd ` set l - {f}" by auto
  next
    fix x assume "x \<in> snd ` set l - {f}"
    then obtain c where c: "c \<in> set l" "snd c = x" "x \<noteq> f" by auto
    have "fst c \<noteq> it"
    proof
      assume "fst c = it"
      then have "fst c = fst (it, f)" by simp
      from inj_onD[OF i1 this c(1) mem] have "c = (it, f)" .
      with c(2,3) show False by simp
    qed
    with c show "x \<in> snd ` set (list_erase it l)" unfolding se by force
  qed
qed


lemma erase_iter_absent:
  assumes "list_ok l m nx" "f \<notin> snd ` set l"
  shows "erase_iter (m f) l = Inl UndefinedBehaviour"
proof (cases "m f")
  case None
  then show ?thesis by (simp add: erase_iter_def)
next
  case (Some it)
  have "it \<notin> fst ` set l"
  proof
    assume "it \<in> fst ` set l"
    with assms(1) Some have "(it, f) \<in> set l" unfolding list_ok_def by blast
    then have "f \<in> snd ` set l" by force
    with assms(2) show False by simp
  qed
  with Some show ?thesis by (simp add: erase_iter_def valid_iter_def)
qed

lemma erase_iter_present:
  assumes "list_ok l m nx" "f \<in> snd ` set l"
  shows "\<exists>it. m f = Some it \<and> (it, f) \<in> set l \<and> erase_iter (m f) l = Inr (list_erase it l)"
proof -
  from assms(2) obtain it where mem: "(it, f) \<in> set l" by auto
  with assms(1) have m: "m f = Some it" unfolding list_ok_def by force
  from mem have "it \<in> fst ` set l" by force
  with m mem show ?thesis by (simp add: erase_iter_def valid_iter_def)
qed

lemma insert_sorted_Inr:
  "insert_sorted ns h new l = Inr l' \<Longrightarrow> \<exists>xs ys. l = xs @ ys \<and> l' = xs @ new # ys"
proof (induction l arbitrary: l')
  case Nil
  then show ?case by simp
next
  case (Cons c l)
  from Cons.prems obtain n where n: "ns (snd c) = Some n" "history n \<noteq> []" "h \<noteq> []"
    by (auto split: option.splits if_splits)
  show ?case
  proof (cases "last (history n) < last h")
    case True
    with Cons.prems n have "l' = [] @ new # c # l" by simp
    then show ?thesis by (metis append_Nil)
  next
    case False
    with Cons.prems n obtain r where r: "insert_sorted ns h new l = Inr r" "l' = c # r"
      by (auto simp: bind_err_def split: sum.splits)
    from Cons.IH[OF r(1)] obtain xs ys where "l = xs @ ys" "r = xs @ new # ys" by blast
    with r have "c # l = (c # xs) @ ys \<and> l' = (c # xs) @ new # ys" by simp
    then show ?thesis by blast
  qed
qed

lemma insert_sorted_total:
  assumes "\<forall>c \<in> set l. \<exists>n. ns (snd c) = Some n \<and> history n \<noteq> []" "h \<noteq> []"
  shows "\<exists>l'. insert_sorted ns h new l = Inr l'"
  using assms
proof (induction l)
  case Nil
  then show ?case by simp
next
  case (Cons c l)
  then obtain n where n: "ns (snd c) = Some n" "history n \<noteq> []" by auto
  from Cons obtain r where "insert_sorted ns h new l = Inr r" by auto
  with n Cons.prems(2) show ?case by (simp add: bind_err_def)
qed

lemma list_ok_insert:
  assumes "list_ok (xs @ ys) m nx" "f \<notin> snd ` set (xs @ ys)"
  shows "list_ok (xs @ (nx, f) # ys) (m(f \<mapsto> nx)) (Suc nx)"
proof -
  have a: "distinct (map fst (xs @ (nx, f) # ys))"
    using assms unfolding list_ok_def by (auto simp: image_iff) 
  have b: "distinct (map snd (xs @ (nx, f) # ys))"
    using assms unfolding list_ok_def by (auto simp: image_iff)
  have c: "\<forall>c \<in> set (xs @ (nx, f) # ys). fst c < Suc nx \<and> (m(f \<mapsto> nx)) (snd c) = Some (fst c)"
    using assms unfolding list_ok_def by (auto simp: image_iff less_Suc_eq)
  have d: "\<forall>g it. (m(f \<mapsto> nx)) g = Some it \<longrightarrow>
      it < Suc nx \<and> (it \<in> fst ` set (xs @ (nx, f) # ys) \<longrightarrow> (it, g) \<in> set (xs @ (nx, f) # ys))"
  proof (intro allI impI)
    fix g it assume h: "(m(f \<mapsto> nx)) g = Some it"
    show "it < Suc nx \<and> (it \<in> fst ` set (xs @ (nx, f) # ys) \<longrightarrow> (it, g) \<in> set (xs @ (nx, f) # ys))"
    proof (cases "g = f")
      case True
      with h show ?thesis by simp
    next
      case False
      with h have mg: "m g = Some it" by simp
      with assms(1) have lt: "it < nx" and
        v: "it \<in> fst ` set (xs @ ys) \<longrightarrow> (it, g) \<in> set (xs @ ys)"
        unfolding list_ok_def by blast+
      from lt v show ?thesis by auto
    qed
  qed
  from a b c d show ?thesis unfolding list_ok_def by blast
qed

section \<open>The effect of RecordAccess\<close>



lemma untracked_not_listed:
  assumes "replacer_inv s" "node_store s f = None"
  shows "f \<notin> snd ` set (fifo_list s)" "f \<notin> snd ` set (lru_list s)"
  using assms unfolding replacer_inv_def members_ok_def by auto

lemma RecordAccess_new_k0:
  assumes "replacer_inv s" "node_store s f = None" "k_val s = 0"
  shows "RecordAccess f a s = Inl AssertionFailure \<or> RecordAccess f a s = Inl UndefinedBehaviour"
proof -
  have "list_ok (lru_list s) (fid_to_lru_iter s) (next_iter s)"
    using assms(1) by (simp add: replacer_inv_def)
  from erase_iter_absent[OF this untracked_not_listed(2)[OF assms(1,2)]]
  show ?thesis using assms(2,3)
    by (simp add: RecordAccess_def enroll_def Let_def bind_err_def)
qed

lemma RecordAccess_new_k1:
  assumes "node_store s f = None" "k_val s = 1" "RecordAccess f a s = Inr s'"
  shows "s' = s\<lparr>node_store := (node_store s)(f \<mapsto> \<lparr>is_evictable = False, history = [current_timestamp s], fid = f, node_k = 1\<rparr>),
               fid_to_fifo_iter := (fid_to_fifo_iter s)(f \<mapsto> next_iter s),
               lru_list := (Suc (next_iter s), f) # lru_list s,
               fid_to_lru_iter := (fid_to_lru_iter s)(f \<mapsto> Suc (next_iter s)),
               next_iter := Suc (Suc (next_iter s)),
               current_timestamp := size_t_inc (current_timestamp s)\<rparr>"
  using assms
  by (auto simp: RecordAccess_def enroll_def Let_def bind_err_def erase_iter_def valid_iter_def LRUKNode_new_def
      split: if_splits)

lemma RecordAccess_new_k2:
  assumes "node_store s f = None" "k_val s > 1" "RecordAccess f a s = Inr s'"
  shows "s' = s\<lparr>node_store := (node_store s)(f \<mapsto> \<lparr>is_evictable = False, history = [current_timestamp s], fid = f, node_k = k_val s\<rparr>),
               fifo_list := (next_iter s, f) # fifo_list s,
               fid_to_fifo_iter := (fid_to_fifo_iter s)(f \<mapsto> next_iter s),
               next_iter := Suc (next_iter s),
               current_timestamp := size_t_inc (current_timestamp s)\<rparr>"
  using assms
  by (auto simp: RecordAccess_def enroll_def Let_def bind_err_def erase_iter_def valid_iter_def LRUKNode_new_def
      split: if_splits)

lemma RecordAccess_old_short:
  assumes "node_store s f = Some n" "Suc (length (history n)) < k_val s" "RecordAccess f a s = Inr s'"
  shows "s' = s\<lparr>node_store := (node_store s)(f \<mapsto> n\<lparr>history := current_timestamp s # history n\<rparr>),
               current_timestamp := size_t_inc (current_timestamp s)\<rparr>"
  using assms
  by (auto simp: RecordAccess_def enroll_def Let_def bind_err_def split: if_splits)

lemma RecordAccess_old_promote:
  assumes "node_store s f = Some n" "Suc (length (history n)) = k_val s" "RecordAccess f a s = Inr s'"
  shows "\<exists>it. fid_to_fifo_iter s f = Some it \<and> it \<in> fst ` set (fifo_list s) \<and>
         s' = s\<lparr>node_store := (node_store s)(f \<mapsto> n\<lparr>history := current_timestamp s # history n\<rparr>),
               fifo_list := list_erase it (fifo_list s),
               lru_list := (next_iter s, f) # lru_list s,
               fid_to_lru_iter := (fid_to_lru_iter s)(f \<mapsto> next_iter s),
               next_iter := Suc (next_iter s),
               current_timestamp := size_t_inc (current_timestamp s)\<rparr>"
  using assms
  by (auto simp: RecordAccess_def enroll_def Let_def bind_err_def erase_iter_def valid_iter_def
      split: if_splits option.splits)

lemma bind_err_Inr:
  "bind_err r g = Inr y \<Longrightarrow> \<exists>x. r = Inr x \<and> g x = Inr y"
  by (cases r) (simp_all add: bind_err_def)

lemma erase_iter_Inr:
  "erase_iter io l = Inr l' \<Longrightarrow> \<exists>it. io = Some it \<and> it \<in> fst ` set l \<and> l' = list_erase it l"
  by (auto simp: erase_iter_def valid_iter_def split: option.splits if_splits)

lemma RecordAccess_old_full:
  assumes "node_store s f = Some n" "length (history n) = k_val s" "RecordAccess f a s = Inr s'"
  shows "\<exists>it xs ys. fid_to_lru_iter s f = Some it \<and> it \<in> fst ` set (lru_list s) \<and>
         list_erase it (lru_list s) = xs @ ys \<and>
         insert_sorted ((node_store s)(f \<mapsto> n\<lparr>history := take (k_val s) (current_timestamp s # history n)\<rparr>))
            (take (k_val s) (current_timestamp s # history n)) (next_iter s, f) (list_erase it (lru_list s))
           = Inr (xs @ (next_iter s, f) # ys) \<and>
         s' = s\<lparr>node_store := (node_store s)(f \<mapsto> n\<lparr>history := take (k_val s) (current_timestamp s # history n)\<rparr>),
               lru_list := xs @ (next_iter s, f) # ys,
               fid_to_lru_iter := (fid_to_lru_iter s)(f \<mapsto> next_iter s),
               next_iter := Suc (next_iter s),
               current_timestamp := size_t_inc (current_timestamp s)\<rparr>"
proof -
  let ?h = "take (k_val s) (current_timestamp s # history n)"
  let ?ns = "(node_store s)(f \<mapsto> n\<lparr>history := ?h\<rparr>)"
  have le: "size_t_of_frame f \<le> replacer_size s"
    using assms(3) by (auto simp: RecordAccess_def split: if_splits)
  have eq: "RecordAccess f a s =
      bind_err (erase_iter (fid_to_lru_iter s f) (lru_list s)) (\<lambda>l.
      bind_err (insert_sorted ?ns ?h (next_iter s, f) l) (\<lambda>l'.
        Inr (s\<lparr>node_store := ?ns, lru_list := l',
               fid_to_lru_iter := (fid_to_lru_iter s)(f \<mapsto> next_iter s),
               next_iter := Suc (next_iter s),
               current_timestamp := size_t_inc (current_timestamp s)\<rparr>)))"
    using assms(1,2) le
    by (simp add: RecordAccess_def enroll_def Let_def trim_history_take del: take_Suc_Cons take_Cons')
  from assms(3)[unfolded eq] obtain l where
    l: "erase_iter (fid_to_lru_iter s f) (lru_list s) = Inr l" and
    r: "bind_err (insert_sorted ?ns ?h (next_iter s, f) l) (\<lambda>l'.
        Inr (s\<lparr>node_store := ?ns, lru_list := l',
               fid_to_lru_iter := (fid_to_lru_iter s)(f \<mapsto> next_iter s),
               next_iter := Suc (next_iter s),
               current_timestamp := size_t_inc (current_timestamp s)\<rparr>)) = Inr s'"
    by (blast dest: bind_err_Inr)
  from bind_err_Inr[OF r] obtain l' where
    ins: "insert_sorted ?ns ?h (next_iter s, f) l = Inr l'" and
    s': "s' = s\<lparr>node_store := ?ns, lru_list := l',
               fid_to_lru_iter := (fid_to_lru_iter s)(f \<mapsto> next_iter s),
               next_iter := Suc (next_iter s),
               current_timestamp := size_t_inc (current_timestamp s)\<rparr>"
    by auto
  from erase_iter_Inr[OF l] obtain it where
    it: "fid_to_lru_iter s f = Some it" "it \<in> fst ` set (lru_list s)" "l = list_erase it (lru_list s)"
    by blast
  from insert_sorted_Inr[OF ins] obtain xs ys where
    xy: "l = xs @ ys" "l' = xs @ (next_iter s, f) # ys" by blast
  show ?thesis
    using it xy ins s' by (intro exI[of _ it] exI[of _ xs] exI[of _ ys]) simp
qed

section \<open>RecordAccess keeps the invariant\<close>

lemma evictable_frames_upd_same:
  assumes "node_store s' = (node_store s)(f \<mapsto> n')"
    and "(\<exists>n. node_store s f = Some n \<and> is_evictable n = is_evictable n') \<or> (node_store s f = None \<and> \<not> is_evictable n')"
  shows "evictable_frames s' = evictable_frames s"
  using assms unfolding evictable_frames_def by (auto split: if_splits)

lemma inv_new_k1:
  assumes inv: "replacer_inv s" and none: "node_store s f = None" and k: "k_val s = 1"
    and ra: "RecordAccess f a s = Inr s'"
  shows "replacer_inv s'"
proof -
  note s' = RecordAccess_new_k1[OF none k ra]
  note nl = untracked_not_listed[OF inv none]
  have 1: "nodes_ok s'" using inv k unfolding replacer_inv_def nodes_ok_def s' by simp
  have 2: "list_ok (fifo_list s') (fid_to_fifo_iter s') (next_iter s')"
  proof -
    have "list_ok (fifo_list s) (fid_to_fifo_iter s) (next_iter s)" using inv by (simp add: replacer_inv_def)
    then have "list_ok (fifo_list s) ((fid_to_fifo_iter s)(f \<mapsto> next_iter s)) (Suc (next_iter s))"
      using nl(1) unfolding list_ok_def by (auto simp: less_Suc_eq image_iff)
    then show ?thesis unfolding s' by (simp add: list_ok_mono)
  qed
  have 3: "list_ok (lru_list s') (fid_to_lru_iter s') (next_iter s')"
  proof -
    have "list_ok (lru_list s) (fid_to_lru_iter s) (Suc (next_iter s))"
      using inv by (simp add: replacer_inv_def list_ok_mono)
    from list_ok_push[OF this nl(2)] show ?thesis unfolding s' by simp
  qed
  have 4: "members_ok s'" using inv k nl unfolding replacer_inv_def members_ok_def s' by auto
  have 5: "size_ok s'"
  proof -
    have "evictable_frames s' = evictable_frames s"
      unfolding evictable_frames_def s' using none by auto
    then show ?thesis using inv unfolding replacer_inv_def size_ok_def by (simp add: s')
  qed
  from 1 2 3 4 5 show ?thesis unfolding replacer_inv_def by blast
qed

lemma inv_new_k2:
  assumes inv: "replacer_inv s" and none: "node_store s f = None" and k: "k_val s > 1"
    and ra: "RecordAccess f a s = Inr s'"
  shows "replacer_inv s'"
proof -
  note s' = RecordAccess_new_k2[OF none k ra]
  note nl = untracked_not_listed[OF inv none]
  have 1: "nodes_ok s'" using inv k unfolding replacer_inv_def nodes_ok_def s' by simp
  have 2: "list_ok (fifo_list s') (fid_to_fifo_iter s') (next_iter s')"
  proof -
    have "list_ok (fifo_list s) (fid_to_fifo_iter s) (next_iter s)" using inv by (simp add: replacer_inv_def)
    from list_ok_push[OF this nl(1)] show ?thesis unfolding s' by simp
  qed
  have 3: "list_ok (lru_list s') (fid_to_lru_iter s') (next_iter s')"
    using inv unfolding s' by (simp add: replacer_inv_def list_ok_mono)
  have 4: "members_ok s'" using inv k nl unfolding replacer_inv_def members_ok_def s' by auto
  have 5: "size_ok s'"
  proof -
    have "evictable_frames s' = evictable_frames s"
      unfolding evictable_frames_def s' using none by auto
    then show ?thesis using inv unfolding replacer_inv_def size_ok_def by (simp add: s')
  qed
  from 1 2 3 4 5 show ?thesis unfolding replacer_inv_def by blast
qed

lemma inv_old_short:
  assumes inv: "replacer_inv s" and some: "node_store s f = Some n" and k: "Suc (length (history n)) < k_val s"
    and ra: "RecordAccess f a s = Inr s'"
  shows "replacer_inv s'"
proof -
  note s' = RecordAccess_old_short[OF some k ra]
  have 1: "nodes_ok s'" using inv k some unfolding replacer_inv_def nodes_ok_def s' by auto
  have 2: "list_ok (fifo_list s') (fid_to_fifo_iter s') (next_iter s')"
    using inv unfolding s' by (simp add: replacer_inv_def)
  have 3: "list_ok (lru_list s') (fid_to_lru_iter s') (next_iter s')"
    using inv unfolding s' by (simp add: replacer_inv_def)
  have 4: "members_ok s'" using inv k some unfolding replacer_inv_def members_ok_def s' by auto
  have 5: "size_ok s'"
  proof -
    have "evictable_frames s' = evictable_frames s"
      unfolding evictable_frames_def s' using some by auto
    then show ?thesis using inv unfolding replacer_inv_def size_ok_def by (simp add: s')
  qed
  from 1 2 3 4 5 show ?thesis unfolding replacer_inv_def by blast
qed

lemma inv_old_promote:
  assumes inv: "replacer_inv s" and some: "node_store s f = Some n" and k: "Suc (length (history n)) = k_val s"
    and ra: "RecordAccess f a s = Inr s'"
  shows "replacer_inv s'"
proof -
  from RecordAccess_old_promote[OF some k ra] obtain it where
    it: "fid_to_fifo_iter s f = Some it" "it \<in> fst ` set (fifo_list s)" and
    s': "s' = s\<lparr>node_store := (node_store s)(f \<mapsto> n\<lparr>history := current_timestamp s # history n\<rparr>),
               fifo_list := list_erase it (fifo_list s),
               lru_list := (next_iter s, f) # lru_list s,
               fid_to_lru_iter := (fid_to_lru_iter s)(f \<mapsto> next_iter s),
               next_iter := Suc (next_iter s),
               current_timestamp := size_t_inc (current_timestamp s)\<rparr>" by blast
  have lf: "list_ok (fifo_list s) (fid_to_fifo_iter s) (next_iter s)"
    and ll: "list_ok (lru_list s) (fid_to_lru_iter s) (next_iter s)"
    and mem: "members_ok s"
    using inv by (simp_all add: replacer_inv_def)
  have in_fifo: "(it, f) \<in> set (fifo_list s)" using lf it unfolding list_ok_def by blast
  have not_lru: "f \<notin> snd ` set (lru_list s)" using mem some k unfolding members_ok_def by auto
  have 1: "nodes_ok s'" using inv k some unfolding replacer_inv_def nodes_ok_def s' by auto
  have 2: "list_ok (fifo_list s') (fid_to_fifo_iter s') (next_iter s')"
    using list_ok_erase[OF lf] unfolding s' by (simp add: list_ok_mono)
  have 3: "list_ok (lru_list s') (fid_to_lru_iter s') (next_iter s')"
    using list_ok_push[OF ll not_lru] unfolding s' by simp
  have 4: "members_ok s'"
    using mem k some list_ok_snd_erase[OF lf in_fifo] unfolding members_ok_def s' by auto
  have 5: "size_ok s'"
  proof -
    have "evictable_frames s' = evictable_frames s"
      unfolding evictable_frames_def s' using some by auto
    then show ?thesis using inv unfolding replacer_inv_def size_ok_def by (simp add: s')
  qed
  from 1 2 3 4 5 show ?thesis unfolding replacer_inv_def by blast
qed

lemma inv_old_full:
  assumes inv: "replacer_inv s" and some: "node_store s f = Some n" and k: "length (history n) = k_val s"
    and ra: "RecordAccess f a s = Inr s'"
  shows "replacer_inv s'"
proof -
  from RecordAccess_old_full[OF some k ra] obtain it xs ys where
    it: "fid_to_lru_iter s f = Some it" "it \<in> fst ` set (lru_list s)" and
    er: "list_erase it (lru_list s) = xs @ ys" and
    s': "s' = s\<lparr>node_store := (node_store s)(f \<mapsto> n\<lparr>history := take (k_val s) (current_timestamp s # history n)\<rparr>),
               lru_list := xs @ (next_iter s, f) # ys,
               fid_to_lru_iter := (fid_to_lru_iter s)(f \<mapsto> next_iter s),
               next_iter := Suc (next_iter s),
               current_timestamp := size_t_inc (current_timestamp s)\<rparr>" by blast
  have lf: "list_ok (fifo_list s) (fid_to_fifo_iter s) (next_iter s)"
    and ll: "list_ok (lru_list s) (fid_to_lru_iter s) (next_iter s)"
    and mem: "members_ok s" and nok: "nodes_ok s"
    using inv by (simp_all add: replacer_inv_def)
  have in_lru: "(it, f) \<in> set (lru_list s)" using ll it unfolding list_ok_def by blast
  have snd_er: "snd ` set (xs @ ys) = snd ` set (lru_list s) - {f}"
    using list_ok_snd_erase[OF ll in_lru] er by simp
  have "history n \<noteq> []" using nok some unfolding nodes_ok_def by blast
  then have kpos: "k_val s \<noteq> 0" using k by (cases "history n") auto
  have 1: "nodes_ok s'" using nok k some kpos unfolding nodes_ok_def s' by auto
  have 2: "list_ok (fifo_list s') (fid_to_fifo_iter s') (next_iter s')"
    using lf unfolding s' by (simp add: list_ok_mono)
  have 3: "list_ok (lru_list s') (fid_to_lru_iter s') (next_iter s')"
  proof -
    have "list_ok (xs @ ys) (fid_to_lru_iter s) (next_iter s)"
      using list_ok_erase[OF ll, of it] er by simp
    moreover have "f \<notin> snd ` set (xs @ ys)" using snd_er by blast
    ultimately show ?thesis unfolding s' using list_ok_insert by simp
  qed
  have 4: "members_ok s'"
  proof -
    have "snd ` set (xs @ (next_iter s, f) # ys) = snd ` set (lru_list s)"
      using snd_er in_lru by force
    then show ?thesis using mem k some kpos unfolding members_ok_def s' by auto
  qed
  have 5: "size_ok s'"
  proof -
    have "evictable_frames s' = evictable_frames s"
      unfolding evictable_frames_def s' using some by auto
    then show ?thesis using inv unfolding replacer_inv_def size_ok_def by (simp add: s')
  qed
  from 1 2 3 4 5 show ?thesis unfolding replacer_inv_def by blast
qed

lemma RecordAccess_inv:
  assumes inv: "replacer_inv s" and ra: "RecordAccess f a s = Inr s'"
  shows "replacer_inv s'"
proof (cases "node_store s f")
  case None
  consider "k_val s = 0" | "k_val s = 1" | "k_val s > 1" by linarith
  then show ?thesis
  proof cases
    case 1
    with RecordAccess_new_k0[OF inv None 1, of a] ra show ?thesis by simp
  next
    case 2
    from inv_new_k1[OF inv None 2 ra] show ?thesis .
  next
    case 3
    from inv_new_k2[OF inv None 3 ra] show ?thesis .
  qed
next
  case (Some n)
  have "length (history n) \<le> k_val s" using inv Some unfolding replacer_inv_def nodes_ok_def by blast
  then consider "Suc (length (history n)) < k_val s" | "Suc (length (history n)) = k_val s" | "length (history n) = k_val s"
    by linarith
  then show ?thesis
  proof cases
    case 1
    from inv_old_short[OF inv Some 1 ra] show ?thesis .
  next
    case 2
    from inv_old_promote[OF inv Some 2 ra] show ?thesis .
  next
    case 3
    from inv_old_full[OF inv Some 3 ra] show ?thesis .
  qed
qed

section \<open>SetEvictable, Evict and Remove keep the invariant\<close>

lemma card_frames_le: "card (A :: frame_id_t set) \<le> 2 ^ 32"
proof -
  have "card A \<le> card (UNIV :: frame_id_t set)" by (rule card_mono) simp_all
  then show ?thesis by (simp add: card_word)
qed

lemma size_t_inc_small: "n < 2 ^ 64 - 1 \<Longrightarrow> size_t_inc n = n + 1"
  by (simp add: size_t_inc_def)

lemma size_t_dec_pos: "0 < n \<Longrightarrow> n < 2 ^ 64 \<Longrightarrow> size_t_dec n = n - 1"
proof -
  assume a: "0 < n" "n < 2 ^ 64"
  then have "n + 2 ^ 64 - 1 = (n - 1) + 2 ^ 64" by simp
  then have "size_t_dec n = ((n - 1) + 2 ^ 64) mod 2 ^ 64" by (simp only: size_t_dec_def)
  also have "\<dots> = (n - 1) mod 2 ^ 64" by simp
  also have "\<dots> = n - 1" using a by simp
  finally show ?thesis .
qed

lemma card_evictable_dec:
  assumes "size_ok s" "f \<in> evictable_frames s"
  shows "size_t_dec (curr_size s) = card (evictable_frames s - {f})"
proof -
  have fin: "finite (evictable_frames s)" by simp
  have "card (evictable_frames s) > 0" using assms(2) fin by (auto simp: card_gt_0_iff)
  moreover have "card (evictable_frames s) \<le> 2 ^ 32" by (rule card_frames_le)
  ultimately have "size_t_dec (curr_size s) = card (evictable_frames s) - 1"
    using assms(1) by (simp add: size_ok_def size_t_dec_pos)
  then show ?thesis using assms(2) by simp
qed

lemma card_evictable_inc:
  assumes "size_ok s" "f \<notin> evictable_frames s"
  shows "size_t_inc (curr_size s) = card (insert f (evictable_frames s))"
proof -
  have "card (evictable_frames s) \<le> 2 ^ 32" by (rule card_frames_le)
  then have "size_t_inc (curr_size s) = card (evictable_frames s) + 1"
    using assms(1) by (simp add: size_ok_def size_t_inc_small)
  then show ?thesis using assms(2) by simp
qed

lemma SetEvictable_untracked: "node_store s f = None \<Longrightarrow> SetEvictable f b s = s"
  by (simp add: SetEvictable_def)

lemma SetEvictable_inv:
  assumes inv: "replacer_inv s"
  shows "replacer_inv (SetEvictable f b s)"
proof (cases "node_store s f")
  case None
  then show ?thesis using inv by (simp add: SetEvictable_untracked)
next
  case (Some n)
  define t where "t = SetEvictable f b s"
  have s': "t = s\<lparr>curr_size :=
              (if is_evictable n \<and> \<not> b then size_t_dec (curr_size s)
               else if \<not> is_evictable n \<and> b then size_t_inc (curr_size s)
               else curr_size s),
            node_store := (node_store s)(f \<mapsto> n\<lparr>is_evictable := b\<rparr>)\<rparr>"
    using Some by (simp add: SetEvictable_def t_def)
  have sz: "size_ok s" using inv by (simp add: replacer_inv_def)
  have 1: "nodes_ok t" using inv Some unfolding replacer_inv_def nodes_ok_def s' by auto
  have 2: "list_ok (fifo_list t) (fid_to_fifo_iter t) (next_iter t)"
    using inv unfolding s' by (simp add: replacer_inv_def)
  have 3: "list_ok (lru_list t) (fid_to_lru_iter t) (next_iter t)"
    using inv unfolding s' by (simp add: replacer_inv_def)
  have 4: "members_ok t" using inv Some unfolding replacer_inv_def members_ok_def s' by auto
  have ev: "evictable_frames t = (if b then insert f (evictable_frames s) else evictable_frames s - {f})"
    unfolding evictable_frames_def s' using Some by auto
  have mem: "f \<in> evictable_frames s \<longleftrightarrow> is_evictable n"
    unfolding evictable_frames_def using Some by simp
  have 5: "size_ok t"
  proof (cases "is_evictable n")
    case True
    show ?thesis
    proof (cases b)
      case True
      with \<open>is_evictable n\<close> mem have "evictable_frames t = evictable_frames s" using ev by auto
      moreover have "curr_size t = curr_size s" using True \<open>is_evictable n\<close> by (simp add: s')
      ultimately show ?thesis using sz by (simp add: size_ok_def)
    next
      case False
      with \<open>is_evictable n\<close> have "curr_size t = size_t_dec (curr_size s)" by (simp add: s')
      also have "\<dots> = card (evictable_frames s - {f})"
        using card_evictable_dec[OF sz] mem \<open>is_evictable n\<close> by simp
      finally show ?thesis using ev False by (simp add: size_ok_def)
    qed
  next
    case False
    show ?thesis
    proof (cases b)
      case True
      with False have "curr_size t = size_t_inc (curr_size s)" by (simp add: s')
      also have "\<dots> = card (insert f (evictable_frames s))"
        using card_evictable_inc[OF sz] mem False by simp
      finally show ?thesis using ev True by (simp add: size_ok_def)
    next
      case b: False
      with False mem have "evictable_frames t = evictable_frames s" using ev by auto
      moreover have "curr_size t = curr_size s" using b False by (simp add: s')
      ultimately show ?thesis using sz by (simp add: size_ok_def)
    qed
  qed
  from 1 2 3 4 5 show ?thesis unfolding replacer_inv_def t_def by blast
qed

lemma first_evictable_Some:
  "first_evictable ns l = Inr (Some (it, n)) \<Longrightarrow>
     \<exists>xs f ys. l = xs @ (it, f) # ys \<and> ns f = Some n \<and> is_evictable n \<and>
        (\<forall>c \<in> set xs. \<exists>m. ns (snd c) = Some m \<and> \<not> is_evictable m)"
proof (induction l)
  case Nil
  then show ?case by simp
next
  case (Cons c l)
  from Cons.prems obtain m where m: "ns (snd c) = Some m" by (auto split: option.splits)
  show ?case
  proof (cases "is_evictable m")
    case True
    with Cons.prems m have "c = (it, snd c)" "m = n" by (auto simp: prod_eq_iff)
    with m True have "c # l = [] @ (it, snd c) # l \<and> ns (snd c) = Some n \<and> is_evictable n \<and>
        (\<forall>c \<in> set []. \<exists>m. ns (snd c) = Some m \<and> \<not> is_evictable m)" by simp
    then show ?thesis by blast
  next
    case False
    with Cons.prems m have "first_evictable ns l = Inr (Some (it, n))" by simp
    from Cons.IH[OF this] obtain xs f ys where
      "l = xs @ (it, f) # ys" "ns f = Some n" "is_evictable n"
      "\<forall>c \<in> set xs. \<exists>m. ns (snd c) = Some m \<and> \<not> is_evictable m" by blast
    with m False have "c # l = (c # xs) @ (it, f) # ys \<and> ns f = Some n \<and> is_evictable n \<and>
        (\<forall>c \<in> set (c # xs). \<exists>m. ns (snd c) = Some m \<and> \<not> is_evictable m)" by simp
    then show ?thesis by blast
  qed
qed

lemma first_evictable_None:
  "first_evictable ns l = Inr None \<Longrightarrow> \<forall>c \<in> set l. \<exists>m. ns (snd c) = Some m \<and> \<not> is_evictable m"
  by (induction l) (auto split: option.splits if_splits)

lemma first_evictable_total:
  "\<forall>c \<in> set l. ns (snd c) \<noteq> None \<Longrightarrow> \<exists>r. first_evictable ns l = Inr r"
  by (induction l) (auto split: option.splits)

text \<open>The state after a successful eviction of the cell it from the given list.\<close>

lemma evict_step_inv:
  assumes inv: "replacer_inv s" and mem: "(it, f) \<in> set (fifo_list s) \<or> (it, f) \<in> set (lru_list s)"
    and n: "node_store s f = Some n" "is_evictable n"
    and s': "node_store s' = (node_store s)(f := None)"
      "fifo_list s' = list_erase it (fifo_list s) \<and> lru_list s' = lru_list s \<and> (it, f) \<in> set (fifo_list s)
       \<or> lru_list s' = list_erase it (lru_list s) \<and> fifo_list s' = fifo_list s \<and> (it, f) \<in> set (lru_list s)"
      "curr_size s' = size_t_dec (curr_size s)"
      "fid_to_fifo_iter s' = fid_to_fifo_iter s" "fid_to_lru_iter s' = fid_to_lru_iter s"
      "next_iter s' = next_iter s" "k_val s' = k_val s"
  shows "replacer_inv s'"
proof -
  have lf: "list_ok (fifo_list s) (fid_to_fifo_iter s) (next_iter s)"
    and ll: "list_ok (lru_list s) (fid_to_lru_iter s) (next_iter s)"
    and mo: "members_ok s" and nok: "nodes_ok s" and sz: "size_ok s"
    using inv by (simp_all add: replacer_inv_def)
  have 1: "nodes_ok s'" using nok unfolding nodes_ok_def s' by (auto split: if_splits)
  have 2: "list_ok (fifo_list s') (fid_to_fifo_iter s') (next_iter s')"
    using s'(2) lf list_ok_erase[OF lf, of it] by (elim disjE conjE) (simp_all add: s'(4,6))
  have 3: "list_ok (lru_list s') (fid_to_lru_iter s') (next_iter s')"
    using s'(2) ll list_ok_erase[OF ll, of it] by (elim disjE conjE) (simp_all add: s'(5,6))
  have 4: "members_ok s'"
    using s'(2)
  proof
    assume a: "fifo_list s' = list_erase it (fifo_list s) \<and> lru_list s' = lru_list s \<and> (it, f) \<in> set (fifo_list s)"
    then have "snd ` set (fifo_list s') = snd ` set (fifo_list s) - {f}"
      using list_ok_snd_erase[OF lf] by simp
    moreover have "f \<in> snd ` set (fifo_list s)" using a by force
    then have "f \<notin> snd ` set (lru_list s)" using mo unfolding members_ok_def by auto
    ultimately show ?thesis using mo a unfolding members_ok_def s' by auto
  next
    assume a: "lru_list s' = list_erase it (lru_list s) \<and> fifo_list s' = fifo_list s \<and> (it, f) \<in> set (lru_list s)"
    then have "snd ` set (lru_list s') = snd ` set (lru_list s) - {f}"
      using list_ok_snd_erase[OF ll] by simp
    moreover have "f \<in> snd ` set (lru_list s)" using a by force
    then have "f \<notin> snd ` set (fifo_list s)" using mo unfolding members_ok_def by auto
    ultimately show ?thesis using mo a unfolding members_ok_def s' by auto
  qed
  have 5: "size_ok s'"
  proof -
    have "f \<in> evictable_frames s" using n by (auto simp: evictable_frames_def)
    from card_evictable_dec[OF sz this]
    have "curr_size s' = card (evictable_frames s - {f})" by (simp add: s')
    moreover have "evictable_frames s' = evictable_frames s - {f}"
      unfolding evictable_frames_def s' by auto
    ultimately show ?thesis by (simp add: size_ok_def)
  qed
  from 1 2 3 4 5 show ?thesis unfolding replacer_inv_def by blast
qed

lemma Evict_None: "Evict s = Inr (None, s') \<Longrightarrow> s' = s"
  by (auto simp: Evict_def split: if_splits sum.splits option.splits)

lemma Evict_Some:
  assumes nok: "nodes_ok s" and ev: "Evict s = Inr (Some v, s')"
  shows "\<exists>it n. node_store s v = Some n \<and> is_evictable n \<and>
     (fifo_list s \<noteq> [] \<and> first_evictable (node_store s) (rev (fifo_list s)) = Inr (Some (it, n)) \<and>
        (it, v) \<in> set (fifo_list s) \<and>
        s' = s\<lparr>node_store := (node_store s)(v := None),
               fifo_list := list_erase it (fifo_list s),
               curr_size := size_t_dec (curr_size s)\<rparr>
      \<or> fifo_list s = [] \<and> first_evictable (node_store s) (rev (lru_list s)) = Inr (Some (it, n)) \<and>
        (it, v) \<in> set (lru_list s) \<and>
        s' = s\<lparr>node_store := (node_store s)(v := None),
               lru_list := list_erase it (lru_list s),
               curr_size := size_t_dec (curr_size s)\<rparr>)"
proof (cases "fifo_list s = []")
  case False
  with ev obtain it n where fe: "first_evictable (node_store s) (rev (fifo_list s)) = Inr (Some (it, n))"
    and v: "v = fid n"
    and s': "s' = s\<lparr>node_store := (node_store s)(fid n := None),
               fifo_list := list_erase it (fifo_list s),
               curr_size := size_t_dec (curr_size s)\<rparr>"
    by (auto simp: Evict_def split: sum.splits option.splits)
  from first_evictable_Some[OF fe] obtain xs f ys where
    f: "rev (fifo_list s) = xs @ (it, f) # ys" "node_store s f = Some n" "is_evictable n" by blast
  from f(2) nok have "fid n = f" unfolding nodes_ok_def by blast
  moreover have "(it, f) \<in> set (fifo_list s)" using f(1) by (metis in_set_conv_decomp set_rev)
  ultimately show ?thesis using False fe v s' f by auto
next
  case True
  with ev have ne: "lru_list s \<noteq> []" by (auto simp: Evict_def split: if_splits)
  with ev True obtain it n where fe: "first_evictable (node_store s) (rev (lru_list s)) = Inr (Some (it, n))"
    and v: "v = fid n"
    and s': "s' = s\<lparr>node_store := (node_store s)(fid n := None),
               lru_list := list_erase it (lru_list s),
               curr_size := size_t_dec (curr_size s)\<rparr>"
    by (auto simp: Evict_def split: sum.splits option.splits)
  from first_evictable_Some[OF fe] obtain xs f ys where
    f: "rev (lru_list s) = xs @ (it, f) # ys" "node_store s f = Some n" "is_evictable n" by blast
  from f(2) nok have "fid n = f" unfolding nodes_ok_def by blast
  moreover have "(it, f) \<in> set (lru_list s)" using f(1) by (metis in_set_conv_decomp set_rev)
  ultimately show ?thesis using True fe v s' f by auto
qed

lemma Evict_inv:
  assumes inv: "replacer_inv s" and ev: "Evict s = Inr (r, s')"
  shows "replacer_inv s'"
proof (cases r)
  case None
  with ev inv show ?thesis by (auto dest: Evict_None)
next
  case (Some v)
  have nok: "nodes_ok s" using inv by (simp add: replacer_inv_def)
  from Evict_Some[OF nok ev[unfolded Some]] obtain it n where
    n: "node_store s v = Some n" "is_evictable n" and
    d: "(it, v) \<in> set (fifo_list s) \<and>
        s' = s\<lparr>node_store := (node_store s)(v := None),
               fifo_list := list_erase it (fifo_list s),
               curr_size := size_t_dec (curr_size s)\<rparr>
      \<or> (it, v) \<in> set (lru_list s) \<and>
        s' = s\<lparr>node_store := (node_store s)(v := None),
               lru_list := list_erase it (lru_list s),
               curr_size := size_t_dec (curr_size s)\<rparr>" by blast
  show ?thesis
  proof (rule evict_step_inv[OF inv _ n])
    show "(it, v) \<in> set (fifo_list s) \<or> (it, v) \<in> set (lru_list s)" using d by blast
    show "node_store s' = (node_store s)(v := None)" using d by auto
    show "fifo_list s' = list_erase it (fifo_list s) \<and> lru_list s' = lru_list s \<and> (it, v) \<in> set (fifo_list s)
       \<or> lru_list s' = list_erase it (lru_list s) \<and> fifo_list s' = fifo_list s \<and> (it, v) \<in> set (lru_list s)"
      using d by auto
    show "curr_size s' = size_t_dec (curr_size s)" using d by auto
    show "fid_to_fifo_iter s' = fid_to_fifo_iter s" using d by auto
    show "fid_to_lru_iter s' = fid_to_lru_iter s" using d by auto
    show "next_iter s' = next_iter s" using d by auto
    show "k_val s' = k_val s" using d by auto
  qed
qed

lemma remove_fifo_entry_Inr:
  assumes "list_ok (fifo_list s) (fid_to_fifo_iter s) (next_iter s)" "remove_fifo_entry f s = Inr s'"
  shows "list_ok (fifo_list s') (fid_to_fifo_iter s') (next_iter s')
     \<and> snd ` set (fifo_list s') = snd ` set (fifo_list s) - {f}
     \<and> (\<exists>l m. s' = s\<lparr>fifo_list := l, fid_to_fifo_iter := m\<rparr> \<and>
            (\<forall>g. g \<noteq> f \<longrightarrow> m g = fid_to_fifo_iter s g))"
proof (cases "fid_to_fifo_iter s f")
  case None
  with assms(2) have s': "s' = s" by (simp add: remove_fifo_entry_def)
  have "f \<notin> snd ` set (fifo_list s)"
    using assms(1) None unfolding list_ok_def by force
  moreover have "s = s\<lparr>fifo_list := fifo_list s, fid_to_fifo_iter := fid_to_fifo_iter s\<rparr> \<and>
      (\<forall>g. g \<noteq> f \<longrightarrow> fid_to_fifo_iter s g = fid_to_fifo_iter s g)" by simp
  ultimately show ?thesis using assms(1) s' by blast
next
  case (Some it)
  with assms(2) obtain l where l: "erase_iter (Some it) (fifo_list s) = Inr l"
    and s': "s' = s\<lparr>fifo_list := l, fid_to_fifo_iter := (fid_to_fifo_iter s)(f := None)\<rparr>"
    by (auto simp: remove_fifo_entry_def dest!: bind_err_Inr)
  from erase_iter_Inr[OF l] have v: "it \<in> fst ` set (fifo_list s)" and le: "l = list_erase it (fifo_list s)"
    by auto
  from v assms(1) Some have mem: "(it, f) \<in> set (fifo_list s)" unfolding list_ok_def by blast
  have "list_ok l ((fid_to_fifo_iter s)(f := None)) (next_iter s)"
    unfolding le by (rule list_ok_erase_map[OF assms(1) Some])
  moreover have "snd ` set l = snd ` set (fifo_list s) - {f}"
    unfolding le by (rule list_ok_snd_erase[OF assms(1) mem])
  moreover have "\<forall>g. g \<noteq> f \<longrightarrow> ((fid_to_fifo_iter s)(f := None)) g = fid_to_fifo_iter s g" by simp
  ultimately show ?thesis using s' by (simp del: fun_upd_apply) blast
qed

lemma remove_lru_entry_Inr:
  assumes "list_ok (lru_list s) (fid_to_lru_iter s) (next_iter s)" "remove_lru_entry f s = Inr s'"
  shows "list_ok (lru_list s') (fid_to_lru_iter s') (next_iter s')
     \<and> snd ` set (lru_list s') = snd ` set (lru_list s) - {f}
     \<and> (\<exists>l m. s' = s\<lparr>lru_list := l, fid_to_lru_iter := m\<rparr>)"
proof (cases "fid_to_lru_iter s f")
  case None
  with assms(2) have s': "s' = s" by (simp add: remove_lru_entry_def)
  have "f \<notin> snd ` set (lru_list s)"
    using assms(1) None unfolding list_ok_def by force
  moreover have "s = s\<lparr>lru_list := lru_list s, fid_to_lru_iter := fid_to_lru_iter s\<rparr>" by simp
  ultimately show ?thesis using assms(1) s' by blast
next
  case (Some it)
  with assms(2) obtain l where l: "erase_iter (Some it) (lru_list s) = Inr l"
    and s': "s' = s\<lparr>lru_list := l, fid_to_lru_iter := (fid_to_lru_iter s)(f := None)\<rparr>"
    by (auto simp: remove_lru_entry_def dest!: bind_err_Inr)
  from erase_iter_Inr[OF l] have v: "it \<in> fst ` set (lru_list s)" and le: "l = list_erase it (lru_list s)"
    by auto
  from v assms(1) Some have mem: "(it, f) \<in> set (lru_list s)" unfolding list_ok_def by blast
  have "list_ok l ((fid_to_lru_iter s)(f := None)) (next_iter s)"
    unfolding le by (rule list_ok_erase_map[OF assms(1) Some])
  moreover have "snd ` set l = snd ` set (lru_list s) - {f}"
    unfolding le by (rule list_ok_snd_erase[OF assms(1) mem])
  ultimately show ?thesis using s' by auto
qed

lemma Remove_inv:
  assumes inv: "replacer_inv s" and rm: "Remove f s = Inr s'"
  shows "replacer_inv s'"
proof (cases "node_store s f")
  case None
  with rm inv show ?thesis by (simp add: Remove_def)
next
  case (Some n)
  show ?thesis
  proof (cases "is_evictable n")
    case False
    with Some rm inv show ?thesis by (simp add: Remove_def)
  next
    case True
    have lf: "list_ok (fifo_list s) (fid_to_fifo_iter s) (next_iter s)"
      and ll: "list_ok (lru_list s) (fid_to_lru_iter s) (next_iter s)"
      and mo: "members_ok s" and nok: "nodes_ok s" and sz: "size_ok s"
      using inv by (simp_all add: replacer_inv_def)
    define s0 where "s0 = s\<lparr>node_store := (node_store s)(f := None)\<rparr>"
    from rm Some True obtain s1 s2 where
      s1: "remove_fifo_entry f s0 = Inr s1" and
      s2: "remove_lru_entry f s1 = Inr s2" and
      s': "s' = s2\<lparr>curr_size := size_t_dec (curr_size s2)\<rparr>"
      by (auto simp: Remove_def s0_def dest!: bind_err_Inr)
    have lf0: "list_ok (fifo_list s0) (fid_to_fifo_iter s0) (next_iter s0)"
      using lf by (simp add: s0_def)
    from remove_fifo_entry_Inr[OF lf0 s1] obtain l m where
      f1: "list_ok (fifo_list s1) (fid_to_fifo_iter s1) (next_iter s1)"
        "snd ` set (fifo_list s1) = snd ` set (fifo_list s0) - {f}"
        "s1 = s0\<lparr>fifo_list := l, fid_to_fifo_iter := m\<rparr>"
        "\<forall>g. g \<noteq> f \<longrightarrow> m g = fid_to_fifo_iter s0 g" by blast
    have ll1: "list_ok (lru_list s1) (fid_to_lru_iter s1) (next_iter s1)"
      using ll by (simp add: f1(3) s0_def)
    from remove_lru_entry_Inr[OF ll1 s2] obtain l' m' where
      f2: "list_ok (lru_list s2) (fid_to_lru_iter s2) (next_iter s2)"
        "snd ` set (lru_list s2) = snd ` set (lru_list s1) - {f}"
        "s2 = s1\<lparr>lru_list := l', fid_to_lru_iter := m'\<rparr>" by blast
    have ns': "node_store s' = (node_store s)(f := None)" by (simp add: s' f2(3) f1(3) s0_def)
    have k': "k_val s' = k_val s" by (simp add: s' f2(3) f1(3) s0_def)
    have fifo': "snd ` set (fifo_list s') = snd ` set (fifo_list s) - {f}"
      using f1(2) by (simp add: s' f2(3)) (simp add: s0_def)
    have lru': "snd ` set (lru_list s') = snd ` set (lru_list s) - {f}"
      using f2(2) by (simp add: s') (simp add: f1(3) s0_def)
    have fi': "fid_to_fifo_iter s' g = fid_to_fifo_iter s g" if "g \<noteq> f" for g
      using f1(4) that by (simp add: s' f2(3) f1(3)) (simp add: s0_def)
    have 1: "nodes_ok s'" using nok fi' unfolding nodes_ok_def ns' k' by (auto split: if_splits)
    have 2: "list_ok (fifo_list s') (fid_to_fifo_iter s') (next_iter s')"
      using f1(1) by (simp add: s' f2(3))
    have 3: "list_ok (lru_list s') (fid_to_lru_iter s') (next_iter s')"
      using f2(1) by (simp add: s')
    have 4: "members_ok s'"
      using mo unfolding members_ok_def fifo' lru' ns' k' by auto
    have 5: "size_ok s'"
    proof -
      have "f \<in> evictable_frames s" using Some True by (auto simp: evictable_frames_def)
      from card_evictable_dec[OF sz this]
      have "curr_size s' = card (evictable_frames s - {f})" by (simp add: s' f2(3) f1(3) s0_def)
      moreover have "evictable_frames s' = evictable_frames s - {f}"
        unfolding evictable_frames_def ns' by auto
      ultimately show ?thesis by (simp add: size_ok_def)
    qed
    from 1 2 3 4 5 show ?thesis unfolding replacer_inv_def by blast
  qed
qed

lemma new_inv: "replacer_inv (LRUKReplacer_new num kv)"
  by (simp add: replacer_inv_def nodes_ok_def list_ok_def members_ok_def size_ok_def
      evictable_frames_def LRUKReplacer_new_def)

lemma do_call_inv: "replacer_inv s \<Longrightarrow> do_call c s = Inr s' \<Longrightarrow> replacer_inv s'"
proof (cases c)
  case (Call_RecordAccess f a)
  assume "replacer_inv s" "do_call c s = Inr s'"
  with Call_RecordAccess show ?thesis by (simp add: RecordAccess_inv)
next
  case (Call_SetEvictable f b)
  assume "replacer_inv s" "do_call c s = Inr s'"
  with Call_SetEvictable show ?thesis by (auto simp: SetEvictable_inv)
next
  case Call_Evict
  assume a: "replacer_inv s" "do_call c s = Inr s'"
  with Call_Evict obtain r where "Evict s = Inr (r, s')"
    by (auto dest!: bind_err_Inr)
  with a show ?thesis by (blast intro: Evict_inv)
next
  case (Call_Remove f)
  assume "replacer_inv s" "do_call c s = Inr s'"
  with Call_Remove show ?thesis by (simp add: Remove_inv)
qed

lemma run_inv: "replacer_inv s \<Longrightarrow> run cs s = Inr s' \<Longrightarrow> replacer_inv s'"
proof (induction cs arbitrary: s)
  case Nil
  then show ?case by simp
next
  case (Cons c cs)
  from Cons.prems(2) obtain s1 where "do_call c s = Inr s1" "run cs s1 = Inr s'"
    by (auto dest!: bind_err_Inr)
  with Cons.IH do_call_inv[OF Cons.prems(1)] show ?case by blast
qed

lemma RecordAccess_static:
  "RecordAccess f a s = Inr s' \<Longrightarrow>
     k_val s' = k_val s \<and> replacer_size s' = replacer_size s \<and> curr_size s' = curr_size s"
  by (auto simp: RecordAccess_def enroll_def Let_def dest!: bind_err_Inr
      split: if_splits option.splits)

lemma Evict_static:
  "Evict s = Inr (r, s') \<Longrightarrow> k_val s' = k_val s \<and> replacer_size s' = replacer_size s"
  by (auto simp: Evict_def split: if_splits sum.splits option.splits)

lemma Remove_static:
  "Remove f s = Inr s' \<Longrightarrow> k_val s' = k_val s \<and> replacer_size s' = replacer_size s"
  by (auto simp: Remove_def remove_fifo_entry_def remove_lru_entry_def dest!: bind_err_Inr
      split: if_splits option.splits)

lemma SetEvictable_static:
  "k_val (SetEvictable f b s) = k_val s \<and> replacer_size (SetEvictable f b s) = replacer_size s"
  by (simp add: SetEvictable_def split: option.splits)

lemma do_call_static:
  "do_call c s = Inr s' \<Longrightarrow> k_val s' = k_val s \<and> replacer_size s' = replacer_size s"
  by (cases c) (auto simp: RecordAccess_static SetEvictable_static Remove_static
      dest!: bind_err_Inr dest: Evict_static)

lemma run_static:
  "run cs s = Inr s' \<Longrightarrow> k_val s' = k_val s \<and> replacer_size s' = replacer_size s"
proof (induction cs arbitrary: s)
  case Nil
  then show ?case by simp
next
  case (Cons c cs)
  from Cons.prems obtain s1 where "do_call c s = Inr s1" "run cs s1 = Inr s'"
    by (auto dest!: bind_err_Inr)
  with Cons.IH do_call_static show ?case by metis
qed

section \<open>States reached from a new replacer\<close>

lemma run_reachable_inv: "run cs (LRUKReplacer_new num kv) = Inr s \<Longrightarrow> replacer_inv s"
  using run_inv[OF new_inv] by blast

lemma run_reachable_k: "run cs (LRUKReplacer_new num kv) = Inr s \<Longrightarrow> k_val s = kv \<and> replacer_size s = num"
  using run_static[of cs "LRUKReplacer_new num kv" s] by (simp add: LRUKReplacer_new_def)

section \<open>RecordAccess and Remove on a state that satisfies the invariant\<close>

lemma RecordAccess_total:
  assumes inv: "replacer_inv s" and k: "1 \<le> k_val s" and le: "size_t_of_frame f \<le> replacer_size s"
  shows "\<exists>s'. RecordAccess f a s = Inr s'"
proof (cases "node_store s f")
  case None
  show ?thesis
  proof (cases "k_val s = 1")
    case True
    with None le show ?thesis
      by (simp add: RecordAccess_def enroll_def Let_def LRUKNode_new_def erase_iter_def valid_iter_def bind_err_def)
  next
    case False
    with k have "1 < k_val s" by simp
    with None le show ?thesis
      by (simp add: RecordAccess_def enroll_def Let_def LRUKNode_new_def)
  qed
next
  case (Some n)
  from inv have mo: "members_ok s" and nok: "nodes_ok s"
    and lf: "list_ok (fifo_list s) (fid_to_fifo_iter s) (next_iter s)"
    and ll: "list_ok (lru_list s) (fid_to_lru_iter s) (next_iter s)"
    by (simp_all add: replacer_inv_def)
  have "length (history n) \<le> k_val s" using nok Some unfolding nodes_ok_def by blast
  then consider "Suc (length (history n)) < k_val s" | "Suc (length (history n)) = k_val s" | "length (history n) = k_val s"
    by linarith
  then show ?thesis
  proof cases
    case 1
    with Some le show ?thesis by (simp add: RecordAccess_def enroll_def Let_def)
  next
    case 2
    then have "f \<in> snd ` set (fifo_list s)" using mo Some unfolding members_ok_def by auto
    from erase_iter_present[OF lf this] obtain it where
      "erase_iter (fid_to_fifo_iter s f) (fifo_list s) = Inr (list_erase it (fifo_list s))" by blast
    with 2 Some le show ?thesis by (simp add: RecordAccess_def enroll_def Let_def bind_err_def)
  next
    case 3
    let ?h = "trim_history (k_val s) (current_timestamp s # history n)"
    let ?ns = "(node_store s)(f \<mapsto> n\<lparr>history := ?h\<rparr>)"
    have h: "?h \<noteq> []" using k by (simp add: trim_history_take take_Cons')
    have "f \<in> snd ` set (lru_list s)" using 3 mo Some unfolding members_ok_def by auto
    from erase_iter_present[OF ll this] obtain it where
      er: "erase_iter (fid_to_lru_iter s f) (lru_list s) = Inr (list_erase it (lru_list s))" by blast
    have "\<forall>c \<in> set (list_erase it (lru_list s)). \<exists>m. ?ns (snd c) = Some m \<and> history m \<noteq> []"
    proof
      fix c assume "c \<in> set (list_erase it (lru_list s))"
      then have "c \<in> set (lru_list s)" using set_list_erase_subset by blast
      then have "snd c \<in> snd ` set (lru_list s)" by simp
      then obtain m where m: "node_store s (snd c) = Some m" using mo unfolding members_ok_def by auto
      then have "history m \<noteq> []" using nok unfolding nodes_ok_def by blast
      with m h show "\<exists>m. ?ns (snd c) = Some m \<and> history m \<noteq> []" by auto
    qed
    from insert_sorted_total[OF this h] obtain l' where
      "insert_sorted ?ns ?h (next_iter s, f) (list_erase it (lru_list s)) = Inr l'" by blast
    with er 3 Some le show ?thesis by (simp add: RecordAccess_def enroll_def Let_def bind_err_def)
  qed
qed

lemma RecordAccess_history:
  assumes inv: "replacer_inv s" and ra: "RecordAccess f a s = Inr s'"
  shows "\<exists>n'. node_store s' f = Some n' \<and>
           history n' = take (k_val s) (current_timestamp s #
              (case node_store s f of None \<Rightarrow> [] | Some n \<Rightarrow> history n))"
proof (cases "node_store s f")
  case None
  consider "k_val s = 0" | "k_val s = 1" | "k_val s > 1" by linarith
  then show ?thesis
  proof cases
    case 1
    with RecordAccess_new_k0[OF inv None 1, of a] ra show ?thesis by simp
  next
    case 2
    show ?thesis unfolding RecordAccess_new_k1[OF None 2 ra] using None 2 by simp
  next
    case 3
    then obtain j where j: "k_val s = Suc j" by (cases "k_val s") auto
    show ?thesis unfolding RecordAccess_new_k2[OF None 3 ra] using None j by simp
  qed
next
  case (Some n)
  have "length (history n) \<le> k_val s" using inv Some unfolding replacer_inv_def nodes_ok_def by blast
  then consider "Suc (length (history n)) < k_val s" | "Suc (length (history n)) = k_val s" | "length (history n) = k_val s"
    by linarith
  then show ?thesis
  proof cases
    case 1
    then have "take (k_val s) (current_timestamp s # history n) = current_timestamp s # history n" by simp
    then show ?thesis unfolding RecordAccess_old_short[OF Some 1 ra] using Some by simp
  next
    case 2
    then have tk: "take (k_val s) (current_timestamp s # history n) = current_timestamp s # history n" by simp
    from RecordAccess_old_promote[OF Some 2 ra] obtain it where
      "s' = s\<lparr>node_store := (node_store s)(f \<mapsto> n\<lparr>history := current_timestamp s # history n\<rparr>),
               fifo_list := list_erase it (fifo_list s),
               lru_list := (next_iter s, f) # lru_list s,
               fid_to_lru_iter := (fid_to_lru_iter s)(f \<mapsto> next_iter s),
               next_iter := Suc (next_iter s),
               current_timestamp := size_t_inc (current_timestamp s)\<rparr>" by blast
    then show ?thesis using Some tk by simp
  next
    case 3
    from RecordAccess_old_full[OF Some 3 ra] obtain it xs ys where
      "s' = s\<lparr>node_store := (node_store s)(f \<mapsto> n\<lparr>history := take (k_val s) (current_timestamp s # history n)\<rparr>),
               lru_list := xs @ (next_iter s, f) # ys,
               fid_to_lru_iter := (fid_to_lru_iter s)(f \<mapsto> next_iter s),
               next_iter := Suc (next_iter s),
               current_timestamp := size_t_inc (current_timestamp s)\<rparr>" by blast
    then show ?thesis using Some by (simp del: take_Suc_Cons)
  qed
qed

lemma Remove_full_history_undefined:
  assumes inv: "replacer_inv s" and n: "node_store s f = Some n" "is_evictable n"
    and full: "length (history n) = k_val s"
  shows "Remove f s = Inl UndefinedBehaviour"
proof -
  from inv have mo: "members_ok s" and nok: "nodes_ok s"
    and lf: "list_ok (fifo_list s) (fid_to_fifo_iter s) (next_iter s)"
    by (simp_all add: replacer_inv_def)
  have "f \<notin> snd ` set (fifo_list s)" using mo n full unfolding members_ok_def by auto
  from erase_iter_absent[OF lf this] have e: "erase_iter (fid_to_fifo_iter s f) (fifo_list s) = Inl UndefinedBehaviour" .
  from nok n obtain it where it: "fid_to_fifo_iter s f = Some it" unfolding nodes_ok_def by blast
  have "remove_fifo_entry f (s\<lparr>node_store := (node_store s)(f := None)\<rparr>) = Inl UndefinedBehaviour"
    using e it by (simp add: remove_fifo_entry_def bind_err_def)
  then show ?thesis using n by (simp add: Remove_def bind_err_def)
qed

section \<open>The order of the timestamps\<close>

lemma list_erase_filter:
  "distinct (map fst l) \<Longrightarrow> list_erase it l = filter (\<lambda>c. fst c \<noteq> it) l"
proof (induction l)
  case Nil
  then show ?case by simp
next
  case (Cons c l)
  show ?case
  proof (cases "fst c = it")
    case True
    with Cons.prems have "it \<notin> fst ` set l" by simp
    then have "\<forall>d \<in> set l. fst d \<noteq> it" by force
    then have "filter (\<lambda>c. fst c \<noteq> it) l = l" by (simp add: filter_id_conv)
    with True show ?thesis by simp
  next
    case False
    with Cons show ?thesis by simp
  qed
qed

lemma sorted_first_access_cong:
  assumes "\<forall>c \<in> set l. first_access ns' (snd c) = first_access ns (snd c)"
    and "sorted_wrt (\<lambda>c d. first_access ns (snd d) < first_access ns (snd c)) l"
  shows "sorted_wrt (\<lambda>c d. first_access ns' (snd d) < first_access ns' (snd c)) l"
  using assms(2) by (rule sorted_wrt_mono_rel[rotated]) (simp add: assms(1))

lemma first_access_upd_other: "g \<noteq> f \<Longrightarrow> first_access (ns(f := x)) g = first_access ns g"
  by (simp add: first_access_def)

text \<open>Erasing a node and cells: the timestamps stay ordered.\<close>

lemma times_ok_shrink:
  assumes t: "times_ok s"
    and ns: "node_store s' = (node_store s)(f := None)"
    and nf: "f \<notin> snd ` set (fifo_list s')"
    and l: "\<exists>P. fifo_list s' = filter P (fifo_list s)"
    and ts: "current_timestamp s' = current_timestamp s"
  shows "times_ok s'"
proof -
  from l obtain P where P: "fifo_list s' = filter P (fifo_list s)" by blast
  have a: "\<forall>g n. node_store s' g = Some n \<longrightarrow>
         (\<forall>t \<in> set (history n). t < current_timestamp s') \<and> sorted_wrt (>) (history n)"
    using t unfolding times_ok_def ns ts by (auto split: if_splits)
  have "sorted_wrt (\<lambda>c d. first_access (node_store s) (snd d) < first_access (node_store s) (snd c)) (fifo_list s')"
    using t unfolding times_ok_def P by (simp add: sorted_wrt_filter)
  moreover have "\<forall>c \<in> set (fifo_list s'). first_access (node_store s') (snd c) = first_access (node_store s) (snd c)"
  proof
    fix c assume "c \<in> set (fifo_list s')"
    with nf have "snd c \<noteq> f" by force
    then show "first_access (node_store s') (snd c) = first_access (node_store s) (snd c)"
      unfolding ns by (rule first_access_upd_other)
  qed
  ultimately have "sorted_wrt (\<lambda>c d. first_access (node_store s') (snd d) < first_access (node_store s') (snd c)) (fifo_list s')"
    by (rule sorted_first_access_cong[rotated])
  with a show ?thesis unfolding times_ok_def by blast
qed

lemma Evict_times:
  assumes inv: "replacer_inv s" and t: "times_ok s" and ev: "Evict s = Inr (r, s')"
  shows "times_ok s' \<and> current_timestamp s' = current_timestamp s"
proof (cases r)
  case None
  with ev t show ?thesis by (auto dest: Evict_None)
next
  case (Some v)
  have inv': "replacer_inv s'" using Evict_inv[OF inv ev] .
  from inv have nok: "nodes_ok s" and lf: "list_ok (fifo_list s) (fid_to_fifo_iter s) (next_iter s)"
    by (simp_all add: replacer_inv_def)
  from Evict_Some[OF nok ev[unfolded Some]] obtain it n where
    d: "s' = s\<lparr>node_store := (node_store s)(v := None),
               fifo_list := list_erase it (fifo_list s),
               curr_size := size_t_dec (curr_size s)\<rparr>
      \<or> s' = s\<lparr>node_store := (node_store s)(v := None),
               lru_list := list_erase it (lru_list s),
               curr_size := size_t_dec (curr_size s)\<rparr>" by blast
  have ns: "node_store s' = (node_store s)(v := None)" using d by auto
  have ts: "current_timestamp s' = current_timestamp s" using d by auto
  have "node_store s' v = None" using ns by simp
  then have nf: "v \<notin> snd ` set (fifo_list s')"
    using inv' unfolding replacer_inv_def members_ok_def by auto
  have "fifo_list s' = filter (\<lambda>c. fst c \<noteq> it) (fifo_list s) \<or> fifo_list s' = filter (\<lambda>c. True) (fifo_list s)"
    using d list_erase_filter[of "fifo_list s" it] lf unfolding list_ok_def by auto
  then have "\<exists>P. fifo_list s' = filter P (fifo_list s)" by blast
  from times_ok_shrink[OF t ns nf this ts] ts show ?thesis by simp
qed

lemma Remove_times:
  assumes inv: "replacer_inv s" and t: "times_ok s" and rm: "Remove f s = Inr s'"
  shows "times_ok s' \<and> current_timestamp s' = current_timestamp s"
proof (cases "node_store s f")
  case None
  with rm t show ?thesis by (simp add: Remove_def)
next
  case (Some n)
  show ?thesis
  proof (cases "is_evictable n")
    case False
    with Some rm t show ?thesis by (simp add: Remove_def)
  next
    case True
    have inv': "replacer_inv s'" using Remove_inv[OF inv rm] .
    from inv have lf: "list_ok (fifo_list s) (fid_to_fifo_iter s) (next_iter s)"
      by (simp add: replacer_inv_def)
    define s0 where "s0 = s\<lparr>node_store := (node_store s)(f := None)\<rparr>"
    from rm Some True obtain s1 s2 where
      s1: "remove_fifo_entry f s0 = Inr s1" and
      s2: "remove_lru_entry f s1 = Inr s2" and
      s': "s' = s2\<lparr>curr_size := size_t_dec (curr_size s2)\<rparr>"
      by (auto simp: Remove_def s0_def dest!: bind_err_Inr)
    have s2': "\<exists>l m. s2 = s1\<lparr>lru_list := l, fid_to_lru_iter := m\<rparr>"
    proof (cases "fid_to_lru_iter s1 f")
      case None
      with s2 have "s2 = s1\<lparr>lru_list := lru_list s1, fid_to_lru_iter := fid_to_lru_iter s1\<rparr>"
        by (simp add: remove_lru_entry_def)
      then show ?thesis by blast
    next
      case (Some it)
      with s2 show ?thesis by (auto simp: remove_lru_entry_def dest!: bind_err_Inr)
    qed
    have s1': "s1 = s0 \<or> (\<exists>it. s1 = s0\<lparr>fifo_list := list_erase it (fifo_list s0),
          fid_to_fifo_iter := (fid_to_fifo_iter s0)(f := None)\<rparr>)"
      using s1 by (auto simp: remove_fifo_entry_def dest!: bind_err_Inr erase_iter_Inr split: option.splits)
    have ns: "node_store s' = (node_store s)(f := None)" using s2' s1' by (auto simp: s' s0_def)
    have ts: "current_timestamp s' = current_timestamp s" using s2' s1' by (auto simp: s' s0_def)
    have "node_store s' f = None" using ns by simp
    then have nf: "f \<notin> snd ` set (fifo_list s')"
      using inv' unfolding replacer_inv_def members_ok_def by auto
    have "fifo_list s' = fifo_list s \<or> (\<exists>it. fifo_list s' = list_erase it (fifo_list s))"
      using s2' s1' by (auto simp: s' s0_def)
    then have "fifo_list s' = filter (\<lambda>c. True) (fifo_list s) \<or> (\<exists>it. fifo_list s' = filter (\<lambda>c. fst c \<noteq> it) (fifo_list s))"
      using list_erase_filter[of "fifo_list s"] lf unfolding list_ok_def by auto
    then have "\<exists>P. fifo_list s' = filter P (fifo_list s)" by blast
    from times_ok_shrink[OF t ns nf this ts] ts show ?thesis by simp
  qed
qed

lemma SetEvictable_times:
  assumes t: "times_ok s"
  shows "times_ok (SetEvictable f b s) \<and> current_timestamp (SetEvictable f b s) = current_timestamp s"
proof (cases "node_store s f")
  case None
  with t show ?thesis by (simp add: SetEvictable_def)
next
  case (Some n)
  define s' where "s' = SetEvictable f b s"
  have ns: "node_store s' = (node_store s)(f \<mapsto> n\<lparr>is_evictable := b\<rparr>)"
    and l: "fifo_list s' = fifo_list s" and ts: "current_timestamp s' = current_timestamp s"
    using Some by (simp_all add: s'_def SetEvictable_def)
  have fa: "first_access (node_store s') g = first_access (node_store s) g" for g
    using Some unfolding ns by (simp add: first_access_def)
  have "times_ok s'" using t Some unfolding times_ok_def ns l ts fa[unfolded ns]
    by (auto split: if_splits)
  with ts show ?thesis unfolding s'_def by simp
qed

lemma times_ok_update:
  assumes t: "times_ok s"
    and ns: "node_store s' = (node_store s)(f \<mapsto> n')"
    and ts: "current_timestamp s' = Suc (current_timestamp s)"
    and h: "\<forall>t \<in> set (history n'). t \<le> current_timestamp s" "sorted_wrt (>) (history n')"
    and l: "\<exists>P. fifo_list s' = filter P (fifo_list s)"
    and fa: "f \<in> snd ` set (fifo_list s') \<longrightarrow> first_access (node_store s') f = first_access (node_store s) f"
  shows "times_ok s'"
proof -
  from l obtain P where P: "fifo_list s' = filter P (fifo_list s)" by blast
  have a: "\<forall>g n. node_store s' g = Some n \<longrightarrow>
         (\<forall>t \<in> set (history n). t < current_timestamp s') \<and> sorted_wrt (>) (history n)"
  proof (intro allI impI)
    fix g n assume g: "node_store s' g = Some n"
    show "(\<forall>t \<in> set (history n). t < current_timestamp s') \<and> sorted_wrt (>) (history n)"
    proof (cases "g = f")
      case True
      with g ns have "n = n'" by simp
      with h ts show ?thesis by (auto simp: less_Suc_eq_le)
    next
      case False
      with g ns have "node_store s g = Some n" by simp
      with t have "(\<forall>t \<in> set (history n). t < current_timestamp s) \<and> sorted_wrt (>) (history n)"
        unfolding times_ok_def by blast
      with ts show ?thesis by (auto simp: less_Suc_eq)
    qed
  qed
  have "sorted_wrt (\<lambda>c d. first_access (node_store s) (snd d) < first_access (node_store s) (snd c)) (fifo_list s')"
    using t unfolding times_ok_def P by (simp add: sorted_wrt_filter)
  moreover have "\<forall>c \<in> set (fifo_list s'). first_access (node_store s') (snd c) = first_access (node_store s) (snd c)"
  proof
    fix c assume c: "c \<in> set (fifo_list s')"
    show "first_access (node_store s') (snd c) = first_access (node_store s) (snd c)"
    proof (cases "snd c = f")
      case True
      with c have "f \<in> snd ` set (fifo_list s')" by force
      with fa True show ?thesis by simp
    next
      case False
      then show ?thesis unfolding ns by (rule first_access_upd_other)
    qed
  qed
  ultimately have "sorted_wrt (\<lambda>c d. first_access (node_store s') (snd d) < first_access (node_store s') (snd c)) (fifo_list s')"
    by (rule sorted_first_access_cong[rotated])
  with a show ?thesis unfolding times_ok_def by blast
qed

lemma filter_True_ex: "\<exists>P. l = filter P l"
  by (rule exI[of _ "\<lambda>_. True"]) simp

lemma first_access_member_less:
  assumes inv: "replacer_inv s" and t: "times_ok s" and c: "c \<in> set (fifo_list s)"
  shows "first_access (node_store s) (snd c) < current_timestamp s"
proof -
  from inv have mo: "members_ok s" and nok: "nodes_ok s" by (simp_all add: replacer_inv_def)
  from c have "snd c \<in> snd ` set (fifo_list s)" by simp
  then obtain n where n: "node_store s (snd c) = Some n" using mo unfolding members_ok_def by auto
  with nok have "history n \<noteq> []" unfolding nodes_ok_def by blast
  then have "last (history n) \<in> set (history n)" by simp
  with t n have "last (history n) < current_timestamp s" unfolding times_ok_def by blast
  with n show ?thesis by (simp add: first_access_def)
qed

lemma RecordAccess_times:
  assumes inv: "replacer_inv s" and t: "times_ok s" and bound: "current_timestamp s < 2 ^ 64 - 1"
    and ra: "RecordAccess f a s = Inr s'"
  shows "times_ok s' \<and> current_timestamp s' = Suc (current_timestamp s)"
proof -
  have inc: "size_t_inc (current_timestamp s) = Suc (current_timestamp s)"
    using bound by (simp add: size_t_inc_small)
  from inv have mo: "members_ok s" and nok: "nodes_ok s"
    and lf: "list_ok (fifo_list s) (fid_to_fifo_iter s) (next_iter s)"
    by (simp_all add: replacer_inv_def)
  show ?thesis
  proof (cases "node_store s f")
    case None
    note nl = untracked_not_listed[OF inv None]
    consider "k_val s = 0" | "k_val s = 1" | "k_val s > 1" by linarith
    then show ?thesis
    proof cases
      case 1
      with RecordAccess_new_k0[OF inv None 1, of a] ra show ?thesis by simp
    next
      case 2
      note s' = RecordAccess_new_k1[OF None 2 ra]
      have ts: "current_timestamp s' = Suc (current_timestamp s)" by (simp add: s' inc)
      have "times_ok s'"
      proof (rule times_ok_update[OF t _ ts])
        show "node_store s' = (node_store s)(f \<mapsto> \<lparr>is_evictable = False, history = [current_timestamp s], fid = f, node_k = 1\<rparr>)"
          by (simp add: s')
        show "\<exists>P. fifo_list s' = filter P (fifo_list s)" using filter_True_ex by (simp add: s')
        show "f \<in> snd ` set (fifo_list s') \<longrightarrow> first_access (node_store s') f = first_access (node_store s) f"
          using nl(1) by (simp add: s')
      qed simp_all
      with ts show ?thesis by simp
    next
      case 3
      note s' = RecordAccess_new_k2[OF None 3 ra]
      have ts: "current_timestamp s' = Suc (current_timestamp s)" by (simp add: s' inc)
      have ns: "node_store s' = (node_store s)(f \<mapsto> \<lparr>is_evictable = False, history = [current_timestamp s], fid = f, node_k = k_val s\<rparr>)"
        by (simp add: s')
      have l: "fifo_list s' = (next_iter s, f) # fifo_list s" by (simp add: s')
      have a: "\<forall>g n. node_store s' g = Some n \<longrightarrow>
         (\<forall>t \<in> set (history n). t < current_timestamp s') \<and> sorted_wrt (>) (history n)"
      proof (intro allI impI)
        fix g n assume g: "node_store s' g = Some n"
        show "(\<forall>t \<in> set (history n). t < current_timestamp s') \<and> sorted_wrt (>) (history n)"
        proof (cases "g = f")
          case True
          with g ns have "history n = [current_timestamp s]" by auto
          with ts show ?thesis by simp
        next
          case False
          with g ns have "node_store s g = Some n" by simp
          with t have "(\<forall>t \<in> set (history n). t < current_timestamp s) \<and> sorted_wrt (>) (history n)"
            unfolding times_ok_def by blast
          with ts show ?thesis by (auto simp: less_Suc_eq)
        qed
      qed
      have same: "\<forall>c \<in> set (fifo_list s). first_access (node_store s') (snd c) = first_access (node_store s) (snd c)"
      proof
        fix c assume "c \<in> set (fifo_list s)"
        with nl(1) have "snd c \<noteq> f" by force
        then show "first_access (node_store s') (snd c) = first_access (node_store s) (snd c)"
          unfolding ns by (rule first_access_upd_other)
      qed
      have "sorted_wrt (\<lambda>c d. first_access (node_store s) (snd d) < first_access (node_store s) (snd c)) (fifo_list s)"
        using t unfolding times_ok_def by blast
      with same have tl: "sorted_wrt (\<lambda>c d. first_access (node_store s') (snd d) < first_access (node_store s') (snd c)) (fifo_list s)"
        by (rule sorted_first_access_cong)
      have ff: "first_access (node_store s') f = current_timestamp s" by (simp add: ns first_access_def)
      have hd: "\<forall>d \<in> set (fifo_list s). first_access (node_store s') (snd d) < first_access (node_store s') f"
        using same first_access_member_less[OF inv t] ff by simp
      have "sorted_wrt (\<lambda>c d. first_access (node_store s') (snd d) < first_access (node_store s') (snd c)) (fifo_list s')"
        unfolding l using tl hd by simp
      with a ts show ?thesis unfolding times_ok_def by blast
    qed
  next
    case (Some n)
    have hn: "history n \<noteq> []" "length (history n) \<le> k_val s" using nok Some unfolding nodes_ok_def by blast+
    have tn: "\<forall>t \<in> set (history n). t < current_timestamp s" "sorted_wrt (>) (history n)"
      using t Some unfolding times_ok_def by blast+
    have h1: "\<forall>t \<in> set (current_timestamp s # history n). t \<le> current_timestamp s"
      using tn(1) by auto
    have h2: "sorted_wrt (>) (current_timestamp s # history n)" using tn by auto
    have fa_same: "first_access ((node_store s)(f \<mapsto> n\<lparr>history := current_timestamp s # history n\<rparr>)) f
        = first_access (node_store s) f"
      using Some hn(1) by (simp add: first_access_def)
    from hn(2) consider "Suc (length (history n)) < k_val s" | "Suc (length (history n)) = k_val s" | "length (history n) = k_val s"
      by linarith
    then show ?thesis
    proof cases
      case 1
      note s' = RecordAccess_old_short[OF Some 1 ra]
      have ts: "current_timestamp s' = Suc (current_timestamp s)" by (simp add: s' inc)
      have "times_ok s'"
      proof (rule times_ok_update[OF t _ ts])
        show "node_store s' = (node_store s)(f \<mapsto> n\<lparr>history := current_timestamp s # history n\<rparr>)"
          by (simp add: s')
        show "\<forall>t \<in> set (history (n\<lparr>history := current_timestamp s # history n\<rparr>)). t \<le> current_timestamp s"
          using h1 by simp
        show "sorted_wrt (>) (history (n\<lparr>history := current_timestamp s # history n\<rparr>))" using h2 by simp
        show "\<exists>P. fifo_list s' = filter P (fifo_list s)" using filter_True_ex by (simp add: s')
        show "f \<in> snd ` set (fifo_list s') \<longrightarrow> first_access (node_store s') f = first_access (node_store s) f"
          using fa_same by (simp add: s')
      qed
      with ts show ?thesis by simp
    next
      case 2
      from RecordAccess_old_promote[OF Some 2 ra] obtain it where
        s': "s' = s\<lparr>node_store := (node_store s)(f \<mapsto> n\<lparr>history := current_timestamp s # history n\<rparr>),
               fifo_list := list_erase it (fifo_list s),
               lru_list := (next_iter s, f) # lru_list s,
               fid_to_lru_iter := (fid_to_lru_iter s)(f \<mapsto> next_iter s),
               next_iter := Suc (next_iter s),
               current_timestamp := size_t_inc (current_timestamp s)\<rparr>" by blast
      have ts: "current_timestamp s' = Suc (current_timestamp s)" by (simp add: s' inc)
      have "times_ok s'"
      proof (rule times_ok_update[OF t _ ts])
        show "node_store s' = (node_store s)(f \<mapsto> n\<lparr>history := current_timestamp s # history n\<rparr>)"
          by (simp add: s')
        show "\<forall>t \<in> set (history (n\<lparr>history := current_timestamp s # history n\<rparr>)). t \<le> current_timestamp s"
          using h1 by simp
        show "sorted_wrt (>) (history (n\<lparr>history := current_timestamp s # history n\<rparr>))" using h2 by simp
        have "fifo_list s' = filter (\<lambda>c. fst c \<noteq> it) (fifo_list s)"
          using list_erase_filter[of "fifo_list s" it] lf unfolding list_ok_def by (simp add: s')
        then show "\<exists>P. fifo_list s' = filter P (fifo_list s)" by blast
        show "f \<in> snd ` set (fifo_list s') \<longrightarrow> first_access (node_store s') f = first_access (node_store s) f"
          using fa_same by (simp add: s')
      qed
      with ts show ?thesis by simp
    next
      case 3
      from RecordAccess_old_full[OF Some 3 ra] obtain it xs ys where
        s': "s' = s\<lparr>node_store := (node_store s)(f \<mapsto> n\<lparr>history := take (k_val s) (current_timestamp s # history n)\<rparr>),
               lru_list := xs @ (next_iter s, f) # ys,
               fid_to_lru_iter := (fid_to_lru_iter s)(f \<mapsto> next_iter s),
               next_iter := Suc (next_iter s),
               current_timestamp := size_t_inc (current_timestamp s)\<rparr>" by blast
      have ts: "current_timestamp s' = Suc (current_timestamp s)" by (simp add: s' inc)
      have nf: "f \<notin> snd ` set (fifo_list s)" using mo Some 3 unfolding members_ok_def by auto
      have "times_ok s'"
      proof (rule times_ok_update[OF t _ ts])
        show "node_store s' = (node_store s)(f \<mapsto> n\<lparr>history := take (k_val s) (current_timestamp s # history n)\<rparr>)"
          by (simp add: s')
        show "\<forall>t \<in> set (history (n\<lparr>history := take (k_val s) (current_timestamp s # history n)\<rparr>)). t \<le> current_timestamp s"
        proof
          fix t assume "t \<in> set (history (n\<lparr>history := take (k_val s) (current_timestamp s # history n)\<rparr>))"
          then have "t \<in> set (take (k_val s) (current_timestamp s # history n))" by simp
          then have "t \<in> set (current_timestamp s # history n)" by (rule in_set_takeD)
          with h1 show "t \<le> current_timestamp s" by blast
        qed
        show "sorted_wrt (>) (history (n\<lparr>history := take (k_val s) (current_timestamp s # history n)\<rparr>))"
          using sorted_wrt_take[OF h2] by simp
        show "\<exists>P. fifo_list s' = filter P (fifo_list s)" using filter_True_ex by (simp add: s')
        show "f \<in> snd ` set (fifo_list s') \<longrightarrow> first_access (node_store s') f = first_access (node_store s) f"
          using nf by (simp add: s')
      qed
      with ts show ?thesis by simp
    qed
  qed
qed

lemma do_call_times:
  assumes inv: "replacer_inv s" and t: "times_ok s" and bound: "current_timestamp s < 2 ^ 64 - 1"
    and c: "do_call c s = Inr s'"
  shows "times_ok s' \<and> current_timestamp s' \<le> Suc (current_timestamp s)"
proof (cases c)
  case (Call_RecordAccess f a)
  with c have "RecordAccess f a s = Inr s'" by simp
  from RecordAccess_times[OF inv t bound this] show ?thesis by simp
next
  case (Call_SetEvictable f b)
  with c have "s' = SetEvictable f b s" by simp
  with SetEvictable_times[OF t, of f b] show ?thesis by simp
next
  case Call_Evict
  with c obtain r where "Evict s = Inr (r, s')" by (auto dest!: bind_err_Inr)
  from Evict_times[OF inv t this] show ?thesis by simp
next
  case (Call_Remove f)
  with c have "Remove f s = Inr s'" by simp
  from Remove_times[OF inv t this] show ?thesis by simp
qed

lemma run_times:
  "replacer_inv s \<Longrightarrow> times_ok s \<Longrightarrow> current_timestamp s + length cs < 2 ^ 64 \<Longrightarrow>
   run cs s = Inr s' \<Longrightarrow> times_ok s' \<and> current_timestamp s' \<le> current_timestamp s + length cs"
proof (induction cs arbitrary: s)
  case Nil
  then show ?case by simp
next
  case (Cons c cs)
  from Cons.prems(4) obtain s1 where s1: "do_call c s = Inr s1" "run cs s1 = Inr s'"
    by (auto dest!: bind_err_Inr)
  have b: "current_timestamp s < 2 ^ 64 - 1" using Cons.prems(3) by simp
  from do_call_times[OF Cons.prems(1,2) b s1(1)] have
    t1: "times_ok s1" and le: "current_timestamp s1 \<le> Suc (current_timestamp s)" by simp_all
  have inv1: "replacer_inv s1" using do_call_inv[OF Cons.prems(1) s1(1)] .
  have b1: "current_timestamp s1 + length cs < 2 ^ 64" using le Cons.prems(3) by simp
  from Cons.IH[OF inv1 t1 b1 s1(2)] le show ?case by simp
qed

lemma new_times: "times_ok (LRUKReplacer_new num kv)"
  by (simp add: times_ok_def LRUKReplacer_new_def)

lemma run_reachable_times:
  assumes "run cs (LRUKReplacer_new num kv) = Inr s" "length cs < 2 ^ 64"
  shows "times_ok s \<and> current_timestamp s \<le> length cs"
proof -
  have "current_timestamp (LRUKReplacer_new num kv) + length cs < 2 ^ 64"
    using assms(2) by (simp add: LRUKReplacer_new_def)
  from run_times[OF new_inv new_times this assms(1)] show ?thesis
    by (simp add: LRUKReplacer_new_def)
qed


section \<open>Two returns of Evict and Remove\<close>

lemma Evict_nonempty_fifo_no_victim:
  assumes "fifo_list s \<noteq> []"
    and "first_evictable (node_store s) (rev (fifo_list s)) = Inr None"
  shows "Evict s = Inr (None, s)"
  using assms by (simp add: Evict_def)

lemma Remove_non_evictable:
  assumes "node_store s f = Some n" and "\<not> is_evictable n"
  shows "Remove f s = Inr s"
  using assms by (simp add: Remove_def)

section \<open>Evaluation of call sequences\<close>

lemmas call_defs =
  LRUKReplacer_new_def LRUKNode_new_def RecordAccess_def enroll_def Evict_def
  SetEvictable_def Remove_def remove_fifo_entry_def remove_lru_entry_def erase_iter_def
  valid_iter_def bind_err_def size_t_inc_def size_t_dec_def size_t_of_frame_def Let_def

section \<open>Claims that hold on the code\<close>

text \<open>
  The states of the claims are the states reached from a freshly constructed replacer by
  a sequence of calls of which none aborts and none has undefined behaviour:
  \<open>run cs (LRUKReplacer_new num kv) = Inr s\<close>. Where a claim is about the order of
  timestamps, the sequence has fewer than \<open>2 ^ 64\<close> calls, so that
  \<^verbatim>\<open>current_timestamp_\<close> has not wrapped around.
\<close>

text \<open>
  Claim C6. In a reached state with an evictable frame of fewer than K accesses, Evict
  returns a victim; the victim is evictable, has fewer than K accesses, and its first
  access (the oldest timestamp of its history) is earlier than that of every other
  evictable frame of fewer than K accesses. Frames of K accesses are not considered.
\<close>

theorem Evict_earliest_short_history:
  assumes run: "run cs (LRUKReplacer_new num kv) = Inr s" and bound: "length cs < 2 ^ 64"
    and ex: "node_store s g = Some m" "is_evictable m" "length (history m) < kv"
  shows "\<exists>v n s'. Evict s = Inr (Some v, s') \<and>
           node_store s v = Some n \<and> is_evictable n \<and> length (history n) < kv \<and>
           (\<forall>g' m'. node_store s g' = Some m' \<and> is_evictable m' \<and> length (history m') < kv \<and> g' \<noteq> v
              \<longrightarrow> last (history n) < last (history m'))"
proof -
  have inv: "replacer_inv s" using run by (rule run_reachable_inv)
  have k: "k_val s = kv" using run_reachable_k[OF run] by simp
  have t: "times_ok s" using run_reachable_times[OF run bound] by simp
  from inv have mo: "members_ok s" and nok: "nodes_ok s" by (simp_all add: replacer_inv_def)
  let ?R = "\<lambda>c d. first_access (node_store s) (snd d) < first_access (node_store s) (snd c)"
  have srt: "sorted_wrt ?R (fifo_list s)" using t unfolding times_ok_def by blast
  have in_fifo: "h \<in> snd ` set (fifo_list s)" if "node_store s h = Some x" "length (history x) < kv" for h x
    using mo that k unfolding members_ok_def by auto
  have g_in: "g \<in> snd ` set (fifo_list s)" using in_fifo ex by blast
  then have ne: "fifo_list s \<noteq> []" by auto
  have "\<forall>c \<in> set (rev (fifo_list s)). node_store s (snd c) \<noteq> None"
    using mo unfolding members_ok_def by force
  from first_evictable_total[OF this] obtain r where r: "first_evictable (node_store s) (rev (fifo_list s)) = Inr r"
    by blast
  have "r \<noteq> None"
  proof
    assume "r = None"
    with r have "\<forall>c \<in> set (rev (fifo_list s)). \<exists>x. node_store s (snd c) = Some x \<and> \<not> is_evictable x"
      using first_evictable_None by blast
    moreover from g_in obtain c where "c \<in> set (rev (fifo_list s))" "snd c = g" by auto
    ultimately show False using ex by auto
  qed
  then obtain it n where itn: "r = Some (it, n)" by auto
  from first_evictable_Some[OF r[unfolded itn]] obtain xs v ys where
    dec: "rev (fifo_list s) = xs @ (it, v) # ys" and v: "node_store s v = Some n" "is_evictable n"
    and xs: "\<forall>c \<in> set xs. \<exists>x. node_store s (snd c) = Some x \<and> \<not> is_evictable x" by blast
  have fidn: "fid n = v" using nok v(1) unfolding nodes_ok_def by blast
  have ev: "Evict s = Inr (Some v,
        s\<lparr>node_store := (node_store s)(v := None),
          fifo_list := list_erase it (fifo_list s),
          curr_size := size_t_dec (curr_size s)\<rparr>)"
    using ne r itn fidn by (simp add: Evict_def)
  have fifo: "fifo_list s = rev ys @ (it, v) # rev xs"
  proof -
    have "fifo_list s = rev (rev (fifo_list s))" by simp
    also have "\<dots> = rev ys @ (it, v) # rev xs" unfolding dec by simp
    finally show ?thesis .
  qed
  have "v \<in> snd ` set (fifo_list s)" unfolding fifo by force
  then have short: "length (history n) < kv" using mo v(1) k unfolding members_ok_def by auto
  have least: "last (history n) < last (history m')"
    if a: "node_store s g' = Some m'" "is_evictable m'" "length (history m') < kv" "g' \<noteq> v" for g' m'
  proof -
    from in_fifo[OF a(1,3)] obtain c where c: "c \<in> set (fifo_list s)" "snd c = g'" by auto
    have "c \<notin> set xs" using xs a(1,2) c(2) by auto
    moreover have "c \<noteq> (it, v)" using c(2) a(4) by auto
    ultimately have "c \<in> set (rev ys)" using c(1) unfolding fifo by auto
    moreover have "\<forall>x \<in> set (rev ys). \<forall>y \<in> set ((it, v) # rev xs). ?R x y"
      using srt unfolding fifo sorted_wrt_append by blast
    ultimately have "?R c (it, v)" by simp
    then show ?thesis using c(2) a(1) v(1) by (simp add: first_access_def)
  qed
  from ev v short least show ?thesis by blast
qed

text \<open>
  With K = 2: frames 1, 2, 3 are accessed once, at times 0, 1, 2, and frame 4 twice, at
  times 3 and 4. Frames 2, 3 and 4 are evictable, frame 1 is not. Two evictable frames
  have fewer than two accesses, frame 2 (first access 1) and frame 3 (first access 2):
  Evict returns frame 2, not frame 3 at the head of \<^verbatim>\<open>fifo_list_\<close>, not the older
  frame 1 that is not evictable, and not frame 4 of two accesses.
\<close>

theorem Evict_earliest_short_history_witness:
  "\<exists>s s'. run [Call_RecordAccess 1 Unknown, Call_RecordAccess 2 Unknown, Call_RecordAccess 3 Unknown,
            Call_RecordAccess 4 Unknown, Call_RecordAccess 4 Unknown,
            Call_SetEvictable 4 True, Call_SetEvictable 3 True, Call_SetEvictable 2 True]
           (LRUKReplacer_new 7 2) = Inr s
     \<and> map snd (fifo_list s) = [3, 2, 1] \<and> map snd (lru_list s) = [4]
     \<and> map (\<lambda>f. map_option (\<lambda>n. (is_evictable n, history n)) (node_store s f)) [1, 2, 3, 4]
         = [Some (False, [0]), Some (True, [1]), Some (True, [2]), Some (True, [4, 3])]
     \<and> Evict s = Inr (Some 2, s')
     \<and> node_store s' 2 = None \<and> map snd (fifo_list s') = [3, 1] \<and> map snd (lru_list s') = [4]"
proof -
  let ?cs = "[Call_RecordAccess 1 Unknown, Call_RecordAccess 2 Unknown, Call_RecordAccess 3 Unknown,
            Call_RecordAccess 4 Unknown, Call_RecordAccess 4 Unknown,
            Call_SetEvictable 4 True, Call_SetEvictable 3 True, Call_SetEvictable 2 True]"
  have "\<exists>s s'. run ?cs (LRUKReplacer_new 7 2) = Inr s
     \<and> map snd (fifo_list s) = [3, 2, 1] \<and> map snd (lru_list s) = [4]
     \<and> map (\<lambda>f. map_option (\<lambda>n. (is_evictable n, history n)) (node_store s f)) [1, 2, 3, 4]
         = [Some (False, [0]), Some (True, [1]), Some (True, [2]), Some (True, [4, 3])]
     \<and> node_store s 3 = Some \<lparr>is_evictable = True, history = [2], fid = 3, node_k = 2\<rparr>
     \<and> Evict s = Inr (Some 2, s')
     \<and> node_store s' 2 = None \<and> map snd (fifo_list s') = [3, 1] \<and> map snd (lru_list s') = [4]"
    by (simp add: call_defs)
  then obtain s s' where s: "run ?cs (LRUKReplacer_new 7 2) = Inr s"
     "map snd (fifo_list s) = [3, 2, 1]" "map snd (lru_list s) = [4]"
     "map (\<lambda>f. map_option (\<lambda>n. (is_evictable n, history n)) (node_store s f)) [1, 2, 3, 4]
         = [Some (False, [0]), Some (True, [1]), Some (True, [2]), Some (True, [4, 3])]"
     "node_store s 3 = Some \<lparr>is_evictable = True, history = [2], fid = 3, node_k = 2\<rparr>"
     "Evict s = Inr (Some 2, s')"
     "node_store s' 2 = None" "map snd (fifo_list s') = [3, 1]" "map snd (lru_list s') = [4]"
    by auto
  have b: "length ?cs < 2 ^ 64" by simp
  from Evict_earliest_short_history[OF s(1) b s(5)] s show ?thesis by auto
qed

text \<open>
  Claim C7. In a reached state, Size is the number of tracked nodes whose flag
  \<^verbatim>\<open>is_evictable\<close> is set; SetEvictable lowers it by one when it clears a set flag,
  raises it by one when it sets a cleared flag, and leaves it otherwise (same value, or
  frame not tracked).
\<close>

theorem Size_counts_evictable:
  assumes "run cs (LRUKReplacer_new num kv) = Inr s"
  shows "Size s = card {f. \<exists>n. node_store s f = Some n \<and> is_evictable n} \<and>
     (\<forall>f b. Size (SetEvictable f b s) =
        (case node_store s f of
           None \<Rightarrow> Size s
         | Some n \<Rightarrow> if is_evictable n \<and> \<not> b then Size s - 1
                     else if \<not> is_evictable n \<and> b then Size s + 1
                     else Size s)) \<and>
     (\<forall>f n. node_store s f = Some n \<and> is_evictable n \<longrightarrow> 0 < Size s)"
proof -
  have inv: "replacer_inv s" using assms by (rule run_reachable_inv)
  then have sz: "size_ok s" by (simp add: replacer_inv_def)
  have a: "Size s = card {f. \<exists>n. node_store s f = Some n \<and> is_evictable n}"
    using sz by (simp add: Size_def size_ok_def evictable_frames_def)
  have le: "curr_size s \<le> 2 ^ 32" using sz card_frames_le by (simp add: size_ok_def)
  have c: "0 < Size s" if "node_store s f = Some n \<and> is_evictable n" for f n
  proof -
    from that have "f \<in> evictable_frames s" by (auto simp: evictable_frames_def)
    then have "card (evictable_frames s) > 0" by (auto simp: card_gt_0_iff)
    then show ?thesis using sz by (simp add: Size_def size_ok_def)
  qed
  have b: "Size (SetEvictable f b s) =
        (case node_store s f of
           None \<Rightarrow> Size s
         | Some n \<Rightarrow> if is_evictable n \<and> \<not> b then Size s - 1
                     else if \<not> is_evictable n \<and> b then Size s + 1
                     else Size s)" for f b
  proof (cases "node_store s f")
    case None
    then show ?thesis by (simp add: SetEvictable_def)
  next
    case (Some n)
    have "is_evictable n \<Longrightarrow> size_t_dec (curr_size s) = curr_size s - 1"
      using c[of f n] Some le by (simp add: size_t_dec_pos Size_def)
    moreover have "size_t_inc (curr_size s) = curr_size s + 1"
      using le by (simp add: size_t_inc_small)
    ultimately show ?thesis using Some by (simp add: SetEvictable_def Size_def)
  qed
  from a b c show ?thesis by blast
qed

theorem Size_counts_evictable_witness:
  "\<exists>s. run [Call_RecordAccess 1 Unknown, Call_RecordAccess 2 Unknown, Call_SetEvictable 2 True]
          (LRUKReplacer_new 7 2) = Inr s
     \<and> Size s = card {f. \<exists>n. node_store s f = Some n \<and> is_evictable n}
     \<and> Size s = 1 \<and> Size (SetEvictable 2 True s) = 1 \<and> Size (SetEvictable 2 False s) = 0
     \<and> Size (SetEvictable 1 True s) = 2"
proof -
  have "\<exists>s. run [Call_RecordAccess 1 Unknown, Call_RecordAccess 2 Unknown, Call_SetEvictable 2 True]
          (LRUKReplacer_new 7 2) = Inr s \<and> Size s = 1 \<and> Size (SetEvictable 2 True s) = 1 \<and> Size (SetEvictable 2 False s) = 0
     \<and> Size (SetEvictable 1 True s) = 2"
    by (simp add: call_defs Size_def)
  then obtain s where s: "run [Call_RecordAccess 1 Unknown, Call_RecordAccess 2 Unknown, Call_SetEvictable 2 True]
          (LRUKReplacer_new 7 2) = Inr s" "Size s = 1" "Size (SetEvictable 2 True s) = 1" "Size (SetEvictable 2 False s) = 0"
     "Size (SetEvictable 1 True s) = 2" by blast
  from Size_counts_evictable[OF s(1)] s show ?thesis by blast
qed

text \<open>
  Claim C9. In a reached state every history has at most K timestamps and is strictly
  decreasing (most recent first); after a RecordAccess the history of the accessed frame
  is the current timestamp followed by its previous history (empty for a new frame), cut
  to the first K entries.
\<close>

theorem history_bounded_most_recent_first:
  assumes run: "run cs (LRUKReplacer_new num kv) = Inr s" and bound: "Suc (length cs) < 2 ^ 64"
  shows "(\<forall>f n. node_store s f = Some n \<longrightarrow>
            length (history n) \<le> kv \<and> sorted_wrt (>) (history n)) \<and>
         (\<forall>f a s'. RecordAccess f a s = Inr s' \<longrightarrow>
            (\<exists>n'. node_store s' f = Some n' \<and>
               history n' = take kv (current_timestamp s #
                  (case node_store s f of None \<Rightarrow> [] | Some n \<Rightarrow> history n)) \<and>
               length (history n') \<le> kv \<and> sorted_wrt (>) (history n')))"
proof -
  have inv: "replacer_inv s" using run by (rule run_reachable_inv)
  have k: "k_val s = kv" using run_reachable_k[OF run] by simp
  have b: "length cs < 2 ^ 64" using bound by simp
  have t: "times_ok s" and ts: "current_timestamp s \<le> length cs"
    using run_reachable_times[OF run b] by simp_all
  have 1: "\<forall>f n. node_store s f = Some n \<longrightarrow> length (history n) \<le> kv \<and> sorted_wrt (>) (history n)"
    using inv t k unfolding replacer_inv_def nodes_ok_def times_ok_def by blast
  have 2: "\<exists>n'. node_store s' f = Some n' \<and>
               history n' = take kv (current_timestamp s #
                  (case node_store s f of None \<Rightarrow> [] | Some n \<Rightarrow> history n)) \<and>
               length (history n') \<le> kv \<and> sorted_wrt (>) (history n')"
    if ra: "RecordAccess f a s = Inr s'" for f a s'
  proof -
    from RecordAccess_history[OF inv ra] obtain n' where
      n': "node_store s' f = Some n'"
        "history n' = take kv (current_timestamp s #
                  (case node_store s f of None \<Rightarrow> [] | Some n \<Rightarrow> history n))"
      unfolding k by blast
    have "current_timestamp s < 2 ^ 64 - 1" using ts bound by simp
    from RecordAccess_times[OF inv t this ra] have "times_ok s'" by simp
    with n'(1) have "sorted_wrt (>) (history n')" unfolding times_ok_def by blast
    moreover have "length (history n') \<le> kv" unfolding n'(2) by simp
    ultimately show ?thesis using n' by blast
  qed
  from 1 2 show ?thesis by blast
qed

theorem history_bounded_most_recent_first_witness:
  "\<exists>s s' n'. run [Call_RecordAccess 1 Unknown, Call_RecordAccess 2 Unknown, Call_RecordAccess 1 Unknown]
           (LRUKReplacer_new 7 2) = Inr s
     \<and> map (\<lambda>f. map_option history (node_store s f)) [1, 2] = [Some [2, 0], Some [1]]
     \<and> RecordAccess 1 Unknown s = Inr s'
     \<and> node_store s' 1 = Some n' \<and> history n' = [3, 2]
     \<and> length (history n') \<le> 2 \<and> sorted_wrt (>) (history n')"
proof -
  let ?cs = "[Call_RecordAccess 1 Unknown, Call_RecordAccess 2 Unknown, Call_RecordAccess 1 Unknown]"
  have "\<exists>s s' n'. run ?cs (LRUKReplacer_new 7 2) = Inr s
     \<and> map (\<lambda>f. map_option history (node_store s f)) [1, 2] = [Some [2, 0], Some [1]]
     \<and> RecordAccess 1 Unknown s = Inr s' \<and> node_store s' 1 = Some n' \<and> history n' = [3, 2]"
    by (simp add: call_defs trim_history_take)
  then obtain s s' n' where s: "run ?cs (LRUKReplacer_new 7 2) = Inr s"
     "map (\<lambda>f. map_option history (node_store s f)) [1, 2] = [Some [2, 0], Some [1]]"
     "RecordAccess 1 Unknown s = Inr s'" "node_store s' 1 = Some n'" "history n' = [3, 2]" by auto
  have b: "Suc (length ?cs) < 2 ^ 64" by simp
  from history_bounded_most_recent_first[OF s(1) b] s(3) s(4)
  have "length (history n') \<le> 2 \<and> sorted_wrt (>) (history n')" by fastforce
  with s show ?thesis by (intro exI[of _ s] exI[of _ s'] exI[of _ n']) simp
qed

text \<open>
  Claim C10. In a reached state, the frames of \<^verbatim>\<open>fifo_list_\<close> are the tracked frames
  of fewer than K accesses, the frames of \<^verbatim>\<open>lru_list_\<close> are the tracked frames of
  exactly K accesses, every tracked frame is in exactly one of the two lists, no frame is
  in both, and no list holds a frame twice.
\<close>

theorem each_frame_in_one_list:
  assumes "run cs (LRUKReplacer_new num kv) = Inr s"
  shows "(\<forall>f. f \<in> snd ` set (fifo_list s) \<longleftrightarrow>
            (\<exists>n. node_store s f = Some n \<and> length (history n) < kv)) \<and>
         (\<forall>f. f \<in> snd ` set (lru_list s) \<longleftrightarrow>
            (\<exists>n. node_store s f = Some n \<and> length (history n) = kv)) \<and>
         (\<forall>f. node_store s f \<noteq> None \<longrightarrow>
            (f \<in> snd ` set (fifo_list s)) \<noteq> (f \<in> snd ` set (lru_list s))) \<and>
         snd ` set (fifo_list s) \<inter> snd ` set (lru_list s) = {} \<and>
         distinct (map snd (fifo_list s)) \<and> distinct (map snd (lru_list s))"
proof -
  have inv: "replacer_inv s" using assms by (rule run_reachable_inv)
  have k: "k_val s = kv" using run_reachable_k[OF assms] by simp
  from inv have mo: "members_ok s" and nok: "nodes_ok s"
    and lf: "list_ok (fifo_list s) (fid_to_fifo_iter s) (next_iter s)"
    and ll: "list_ok (lru_list s) (fid_to_lru_iter s) (next_iter s)"
    by (simp_all add: replacer_inv_def)
  have 1: "\<forall>f. f \<in> snd ` set (fifo_list s) \<longleftrightarrow>
            (\<exists>n. node_store s f = Some n \<and> length (history n) < kv)"
    using mo k unfolding members_ok_def by simp
  have 2: "\<forall>f. f \<in> snd ` set (lru_list s) \<longleftrightarrow>
            (\<exists>n. node_store s f = Some n \<and> length (history n) = kv)"
    using mo k unfolding members_ok_def by simp
  have 3: "\<forall>f. node_store s f \<noteq> None \<longrightarrow>
            (f \<in> snd ` set (fifo_list s)) \<noteq> (f \<in> snd ` set (lru_list s))"
  proof (intro allI impI)
    fix f assume "node_store s f \<noteq> None"
    then obtain n where n: "node_store s f = Some n" by auto
    with nok k have "length (history n) \<le> kv" unfolding nodes_ok_def by auto
    then have "length (history n) < kv \<or> length (history n) = kv" by linarith
    with n show "(f \<in> snd ` set (fifo_list s)) \<noteq> (f \<in> snd ` set (lru_list s))"
      unfolding 1[rule_format] 2[rule_format] by auto
  qed
  have 4: "snd ` set (fifo_list s) \<inter> snd ` set (lru_list s) = {}"
  proof -
    have "f \<notin> snd ` set (lru_list s)" if "f \<in> snd ` set (fifo_list s)" for f
      using that unfolding 1[rule_format] 2[rule_format] by auto
    then show ?thesis by blast
  qed
  have 5: "distinct (map snd (fifo_list s))" "distinct (map snd (lru_list s))"
    using lf ll unfolding list_ok_def by simp_all
  from 1 2 3 4 5 show ?thesis by blast
qed

theorem each_frame_in_one_list_witness:
  "\<exists>s. run [Call_RecordAccess 1 Unknown, Call_RecordAccess 2 Unknown, Call_RecordAccess 2 Unknown,
            Call_RecordAccess 3 Unknown, Call_SetEvictable 3 True, Call_Evict]
          (LRUKReplacer_new 7 2) = Inr s
     \<and> map snd (fifo_list s) = [1] \<and> map snd (lru_list s) = [2]
     \<and> snd ` set (fifo_list s) \<inter> snd ` set (lru_list s) = {}
     \<and> distinct (map snd (fifo_list s)) \<and> distinct (map snd (lru_list s))"
proof -
  have "\<exists>s. run [Call_RecordAccess 1 Unknown, Call_RecordAccess 2 Unknown, Call_RecordAccess 2 Unknown,
            Call_RecordAccess 3 Unknown, Call_SetEvictable 3 True, Call_Evict]
          (LRUKReplacer_new 7 2) = Inr s \<and> map snd (fifo_list s) = [1] \<and> map snd (lru_list s) = [2]"
    by (simp add: call_defs)
  then obtain s where s: "run [Call_RecordAccess 1 Unknown, Call_RecordAccess 2 Unknown, Call_RecordAccess 2 Unknown,
            Call_RecordAccess 3 Unknown, Call_SetEvictable 3 True, Call_Evict]
          (LRUKReplacer_new 7 2) = Inr s" "map snd (fifo_list s) = [1]" "map snd (lru_list s) = [2]" by auto
  from each_frame_in_one_list[OF s(1)] s show ?thesis by auto
qed

section \<open>A claim that holds with another bound\<close>

text \<open>
  Claim C5 (RecordAccess aborts if and only if \<^verbatim>\<open>frame_id >= capacity\<close>). The
  assertion of line 94 is \<^verbatim>\<open>static_cast<size_t>(frame_id) <= replacer_size_\<close>, as the
  comment above the function and the message of the assertion say
  (\<^verbatim>\<open>frame_id is larger than replacer_size_\<close>): a frame identifier
  equal to the capacity is accepted. As amended: in a reached state of a replacer with
  K at least 1, RecordAccess aborts if and only if the frame identifier, converted to
  \<^verbatim>\<open>size_t\<close>, is greater than the capacity, and returns normally otherwise; a
  non-negative identifier is converted to itself.
\<close>

theorem RecordAccess_rejects_above_capacity:
  assumes "run cs (LRUKReplacer_new num kv) = Inr s" and "1 \<le> kv"
  shows "(RecordAccess f a s = Inl AssertionFailure \<longleftrightarrow> num < size_t_of_frame f) \<and>
         (size_t_of_frame f \<le> num \<longrightarrow> (\<exists>s'. RecordAccess f a s = Inr s')) \<and>
         (0 \<le> sint f \<longrightarrow> size_t_of_frame f = nat (sint f))"
proof -
  have inv: "replacer_inv s" using assms(1) by (rule run_reachable_inv)
  have k: "k_val s = kv" "replacer_size s = num" using run_reachable_k[OF assms(1)] by simp_all
  have tot: "\<exists>s'. RecordAccess f a s = Inr s'" if "size_t_of_frame f \<le> num"
    using RecordAccess_total[OF inv] that assms(2) k by simp
  have rej: "RecordAccess f a s = Inl AssertionFailure" if "num < size_t_of_frame f"
    using that k by (simp add: RecordAccess_def)
  have "RecordAccess f a s = Inl AssertionFailure \<longleftrightarrow> num < size_t_of_frame f"
  proof
    assume e: "RecordAccess f a s = Inl AssertionFailure"
    show "num < size_t_of_frame f"
    proof (rule ccontr)
      assume "\<not> num < size_t_of_frame f"
      then have "size_t_of_frame f \<le> num" by simp
      from tot[OF this] e show False by auto
    qed
  qed (rule rej)
  moreover have "size_t_of_frame f = nat (sint f)" if "0 \<le> sint f"
  proof -
    have "sint f < 2 ^ 31" using sint_lt[of f] by simp
    then have "sint f < 2 ^ 64" by (rule less_trans) simp
    with that show ?thesis by (simp add: size_t_of_frame_def)
  qed
  ultimately show ?thesis using tot by blast
qed

theorem RecordAccess_rejects_above_capacity_witness:
  "(RecordAccess 7 Unknown (LRUKReplacer_new 7 2) = Inl AssertionFailure \<longleftrightarrow> 7 < size_t_of_frame 7) \<and>
   (\<exists>s'. RecordAccess 7 Unknown (LRUKReplacer_new 7 2) = Inr s') \<and>
   (RecordAccess 8 Unknown (LRUKReplacer_new 7 2) = Inl AssertionFailure \<longleftrightarrow> 7 < size_t_of_frame 8) \<and>
   size_t_of_frame 7 = 7 \<and> size_t_of_frame 8 = 8"
proof -
  have r: "run [] (LRUKReplacer_new 7 2) = Inr (LRUKReplacer_new 7 2)" by simp
  have k: "(1::nat) \<le> 2" by simp
  have a: "size_t_of_frame 7 = 7" "size_t_of_frame 8 = 8" by (simp_all add: size_t_of_frame_def)
  from RecordAccess_rejects_above_capacity[OF r k, of 7 Unknown]
       RecordAccess_rejects_above_capacity[OF r k, of 8 Unknown] a
  show ?thesis by simp
qed

text \<open>The frame identifier 7 on a replacer of capacity 7: the call returns normally.\<close>

theorem RecordAccess_accepts_capacity:
  "size_t_of_frame 7 \<ge> replacer_size (LRUKReplacer_new 7 2) \<and>
   RecordAccess 7 Unknown (LRUKReplacer_new 7 2) =
     Inr \<lparr>lru_list = [], fifo_list = [(0, 7)],
          node_store = [7 \<mapsto> \<lparr>is_evictable = False, history = [0], fid = 7, node_k = 2\<rparr>],
          fid_to_lru_iter = Map.empty, fid_to_fifo_iter = [7 \<mapsto> 0],
          current_timestamp = 1, curr_size = 0, replacer_size = 7, k_val = 2,
          next_iter = 1\<rparr>"
  by (simp add: call_defs)

section \<open>Where the code departs from the claims\<close>

text \<open>
  Claim C1 (Evict goes on to \<^verbatim>\<open>k_order\<close> when \<^verbatim>\<open>fifo_order\<close> holds entries but no
  evictable one). The code returns \<^verbatim>\<open>std::nullopt\<close> at line 61 as soon as
  \<^verbatim>\<open>fifo_list_\<close> is non-empty and holds no evictable node. With K = 2: frame 1 is
  accessed once (it stays in \<^verbatim>\<open>fifo_list_\<close>, not evictable), frame 2 twice (it moves to
  \<^verbatim>\<open>lru_list_\<close>) and is made evictable. Evict returns no victim and changes nothing.
\<close>

theorem Evict_stops_at_fifo_list:
  "\<exists>s n. run [Call_RecordAccess 1 Unknown, Call_RecordAccess 2 Unknown,
              Call_RecordAccess 2 Unknown, Call_SetEvictable 2 True]
             (LRUKReplacer_new 7 2) = Inr s
     \<and> map snd (fifo_list s) = [1] \<and> map snd (lru_list s) = [2]
     \<and> node_store s 2 = Some n \<and> is_evictable n \<and> Size s = 1
     \<and> Evict s = Inr (None, s)"
  by (simp add: call_defs Size_def)

text \<open>
  Claim C2 (a frame reaching K accesses is inserted into \<^verbatim>\<open>k_order\<close> at its sorted
  position). The code puts it at the head of \<^verbatim>\<open>lru_list_\<close> (line 120), whatever the
  list holds. With K = 2, frames 3, 2, 1 are first accessed at times 0, 1, 2 and reach two
  accesses in the order 3, 1, 2: the list, head first, is then 2, 1, 3 with oldest
  timestamps 1, 2, 0, where the sorted position of frame 2 is between 1 and 3.
\<close>

theorem RecordAccess_promotes_to_head:
  "\<exists>s. run [Call_RecordAccess 3 Unknown, Call_RecordAccess 2 Unknown,
            Call_RecordAccess 1 Unknown, Call_RecordAccess 3 Unknown,
            Call_RecordAccess 1 Unknown, Call_RecordAccess 2 Unknown]
           (LRUKReplacer_new 7 2) = Inr s
     \<and> fifo_list s = [] \<and> map snd (lru_list s) = [2, 1, 3]
     \<and> map (\<lambda>f. map_option history (node_store s f)) [2, 1, 3]
         = [Some [5, 1], Some [4, 2], Some [3, 0]]"
  by (simp add: call_defs)

text \<open>
  Claim C3 (with no evictable frame of fewer than K accesses, Evict returns the evictable
  frame whose K-th most recent access is oldest). With K = 2, frame 1 is accessed at
  times 0 and 3, frame 2 at times 1 and 2; both are evictable and no frame has fewer than
  two accesses. At time 4 the backward 2-distance of frame 1 is 4 and that of frame 2 is 3,
  and Evict returns frame 2.
\<close>

theorem Evict_not_largest_distance:
  "\<exists>s s'. run [Call_RecordAccess 1 Unknown, Call_RecordAccess 2 Unknown,
               Call_RecordAccess 2 Unknown, Call_RecordAccess 1 Unknown,
               Call_SetEvictable 1 True, Call_SetEvictable 2 True]
              (LRUKReplacer_new 7 2) = Inr s
     \<and> fifo_list s = [] \<and> current_timestamp s = 4
     \<and> map (\<lambda>f. map_option (\<lambda>n. (is_evictable n, history n)) (node_store s f)) [1, 2]
         = [Some (True, [3, 0]), Some (True, [2, 1])]
     \<and> Evict s = Inr (Some 2, s')"
  by (simp add: call_defs)

text \<open>
  Claim C4 (Remove of a tracked frame that is not evictable signals a fatal error). The
  code returns at line 179 without an error; the state is unchanged.
\<close>

theorem Remove_non_evictable_returns:
  "\<exists>s n. RecordAccess 1 Unknown (LRUKReplacer_new 7 2) = Inr s
     \<and> node_store s 1 = Some n \<and> \<not> is_evictable n
     \<and> Remove 1 s = Inr s"
  by (simp add: call_defs)

text \<open>
  Claim C8 (Remove of a frame that has reached K accesses erases it from \<^verbatim>\<open>k_order\<close>
  only). The entry of \<^verbatim>\<open>fid_to_fifo_iter_\<close> written at the first access is still there
  after the frame has moved to \<^verbatim>\<open>lru_list_\<close>, and designates the cell erased from
  \<^verbatim>\<open>fifo_list_\<close> at line 119. Remove finds the entry (line 182) and erases through it
  (line 184): undefined behaviour.
\<close>

theorem Remove_promoted_frame_undefined:
  "\<exists>s. run [Call_RecordAccess 1 Unknown, Call_RecordAccess 1 Unknown,
            Call_SetEvictable 1 True] (LRUKReplacer_new 7 2) = Inr s
     \<and> fifo_list s = [] \<and> map snd (lru_list s) = [1]
     \<and> fid_to_fifo_iter s 1 = Some 0 \<and> fid_to_lru_iter s 1 = Some 1
     \<and> Remove 1 s = Inl UndefinedBehaviour"
  by (simp add: call_defs)

end
